theory Spec2Isabelle
  imports Complex_Main "HOL-Library.Sublist"
begin

section \<open>Texts, cells and the input column\<close>

text \<open>
  A Python \<open>str\<close> is a sequence of Unicode code points, so a text is a list of
  code points. \<open>lit\<close> turns an ASCII literal into such a text.
\<close>

type_synonym pystr = "nat list"

definition lit :: "string \<Rightarrow> pystr" where
  "lit s = map of_char s"

text \<open>
  \<open>str.strip()\<close> without an argument removes the code points for which
  \<open>str.isspace\<close> holds from both ends.
\<close>

definition isspace :: "nat \<Rightarrow> bool" where
  "isspace c \<longleftrightarrow>
     (0x09 \<le> c \<and> c \<le> 0x0D) \<or> (0x1C \<le> c \<and> c \<le> 0x20) \<or> c = 0x85 \<or> c = 0xA0 \<or>
     c = 0x1680 \<or> (0x2000 \<le> c \<and> c \<le> 0x200A) \<or> c = 0x2028 \<or> c = 0x2029 \<or>
     c = 0x202F \<or> c = 0x205F \<or> c = 0x3000"

definition strip :: "pystr \<Rightarrow> pystr" where
  "strip s = rev (dropWhile isspace (rev (dropWhile isspace s)))"

text \<open>
  The values \<open>df.iloc[:, 0]\<close> iterates over: a text cell, a missing value (the
  float NaN that pandas puts in a blank cell), or any other Python value (a number,
  a boolean, a timestamp), carried by its \<open>str()\<close> rendering.
\<close>

datatype cell = Str pystr | NaN | Other pystr

fun py_str :: "cell \<Rightarrow> pystr" where
  "py_str (Str s) = s"
| "py_str NaN = lit ''nan''"
| "py_str (Other s) = s"

datatype py_error = FileNotFoundError | IndexError | ValueError

text \<open>
  The sheet is the grid of cell values that pandas parsed, row by row; \<open>None\<close> is
  a missing input file. \<open>pd.read_excel(input_excel)\<close> is called with its defaults,
  so \<open>header=0\<close>: the first row gives the column labels and the data frame holds
  the rows below it. \<open>df.iloc[:, 0]\<close> raises IndexError on a frame without columns;
  a row shorter than the header is padded with NaN.
\<close>

type_synonym sheet = "cell list list"

record dataframe =
  columns :: "cell list"
  data :: "cell list list"

definition read_excel :: "sheet option \<Rightarrow> py_error + dataframe" where
  "read_excel input =
     (case input of
        None \<Rightarrow> Inl FileNotFoundError
      | Some [] \<Rightarrow> Inr \<lparr>columns = [], data = []\<rparr>
      | Some (hdr # rows) \<Rightarrow> Inr \<lparr>columns = hdr, data = rows\<rparr>)"

definition first_cell :: "cell list \<Rightarrow> cell" where
  "first_cell r = (case r of [] \<Rightarrow> NaN | c # _ \<Rightarrow> c)"

definition iloc_first :: "dataframe \<Rightarrow> py_error + cell list" where
  "iloc_first df =
     (if columns df = [] then Inl IndexError else Inr (map first_cell (data df)))"

text \<open>Line 68: \<open>[str(row).strip() for row in df.iloc[:, 0] if str(row).strip()]\<close>.\<close>

definition texts_of :: "cell list \<Rightarrow> pystr list" where
  "texts_of col = map (\<lambda>row. strip (py_str row)) (filter (\<lambda>row. strip (py_str row) \<noteq> []) col)"

definition read_texts :: "sheet option \<Rightarrow> py_error + pystr list" where
  "read_texts input =
     (case read_excel input of
        Inl e \<Rightarrow> Inl e
      | Inr df \<Rightarrow> (case iloc_first df of Inl e \<Rightarrow> Inl e | Inr col \<Rightarrow> Inr (texts_of col)))"

text \<open>
  The work items as the specification words them: every cell of the first column,
  row 1 included, that holds text which is non-empty after trimming, in row order.
\<close>

fun spec_items :: "cell list \<Rightarrow> pystr list" where
  "spec_items [] = []"
| "spec_items (Str s # cs) = (if strip s = [] then spec_items cs else strip s # spec_items cs)"
| "spec_items (c # cs) = spec_items cs"

definition spec_work_items :: "sheet \<Rightarrow> pystr list" where
  "spec_work_items sh = spec_items (map first_cell sh)"

definition is_text :: "cell \<Rightarrow> bool" where
  "is_text c = (case c of Str _ \<Rightarrow> True | _ \<Rightarrow> False)"


section \<open>The shared state and the operations on it\<close>

text \<open>
  An embedding is a list of floats. The program stores and copies them and never
  computes with them, so a float is carried as a number.
\<close>

type_synonym embedding = "real list"

text \<open>What the \<open>except Exception as e\<close> clause of \<open>get_embedding\<close> catches.\<close>

datatype api_error = ApiError pystr

text \<open>
  The remote client \<open>client.embeddings.create\<close> followed by
  \<open>response.data[0].embedding\<close>: given the requests issued before and the text of
  this request, it raises or yields a vector.
\<close>

type_synonym client = "pystr list \<Rightarrow> pystr \<Rightarrow> api_error + embedding"

text \<open>
  A row of the output file: the header \<open>["text", "embedding"]\<close> or a data row
  \<open>[text, json.dumps(embedding)]\<close>. The second field of a data row starts with a
  bracket, so no data row is spelled like the header.
\<close>

datatype row = Header | Row pystr embedding

text \<open>
  The observable effects, in the order in which they happen: the progress line of
  line 57 (with \<open>idx + 1\<close> and \<open>total\<close>), the remote request, the failure line of
  line 52, the assignment of line 49, the row of line 61, the dump of line 34 and
  the closing line 84.
\<close>

datatype event =
    Progress nat nat pystr
  | RemoteCall pystr
  | Failed pystr api_error
  | CacheInsert pystr embedding
  | RowWrite pystr embedding
  | CachePersist
  | Completed

text \<open>
  The global \<open>cache\<close> dictionary, the cache file (\<open>None\<close> when it does not exist; a
  file is given by the dictionary that \<open>json.load\<close> reads from it), the rows of the
  output file (\<open>[]\<close> for an absent or empty file, which \<open>open(.., "a")\<close> does not
  tell apart) and the effects so far.
\<close>

record world =
  cache :: "pystr \<rightharpoonup> embedding"
  cache_file :: "(pystr \<rightharpoonup> embedding) option"
  output_csv :: "row list"
  events :: "event list"

definition emit :: "event list \<Rightarrow> world \<Rightarrow> world" where
  "emit es w = w\<lparr>events := events w @ es\<rparr>"

fun call_of :: "event \<Rightarrow> pystr list" where
  "call_of (RemoteCall t) = [t]"
| "call_of _ = []"

definition calls :: "world \<Rightarrow> pystr list" where
  "calls w = concat (map call_of (events w))"

definition load_cache :: "world \<Rightarrow> world" where
  "load_cache w = (case cache_file w of None \<Rightarrow> w | Some m \<Rightarrow> w\<lparr>cache := m\<rparr>)"

definition save_cache :: "world \<Rightarrow> world" where
  "save_cache w = emit [CachePersist] (w\<lparr>cache_file := Some (cache w)\<rparr>)"

text \<open>Lines 48-49: \<open>with cache_lock: cache[text] = embedding\<close>.\<close>

definition cache_insert :: "pystr \<Rightarrow> embedding \<Rightarrow> world \<Rightarrow> world" where
  "cache_insert t e w = emit [CacheInsert t e] (w\<lparr>cache := (cache w)(t \<mapsto> e)\<rparr>)"

text \<open>Lines 43-47 and 51-53: the request, and the report when it raises.\<close>

definition remote_call :: "client \<Rightarrow> pystr \<Rightarrow> world \<Rightarrow> (api_error + embedding) \<times> world" where
  "remote_call client t w =
     (case client (calls w) t of
        Inr e \<Rightarrow> (Inr e, emit [RemoteCall t] w)
      | Inl err \<Rightarrow> (Inl err, emit [RemoteCall t, Failed t err] w))"

text \<open>Lines 60-61: \<open>with write_lock: writer.writerow([text, json.dumps(embedding)])\<close>.\<close>

definition write_row :: "pystr \<Rightarrow> embedding \<Rightarrow> world \<Rightarrow> world" where
  "write_row t e w = emit [RowWrite t e] (w\<lparr>output_csv := output_csv w @ [Row t e]\<rparr>)"

text \<open>The test \<open>if embedding:\<close> of line 59: \<open>None\<close> and the empty list are false.\<close>

definition truthy :: "embedding option \<Rightarrow> bool" where
  "truthy r = (case r of None \<Rightarrow> False | Some e \<Rightarrow> e \<noteq> [])"

subsection \<open>One task, run without interruption\<close>

definition get_embedding :: "client \<Rightarrow> pystr \<Rightarrow> world \<Rightarrow> embedding option \<times> world" where
  "get_embedding client t w =
     (case cache w t of
        Some e \<Rightarrow> (Some e, w)
      | None \<Rightarrow>
          (case remote_call client t w of
             (Inr e, w') \<Rightarrow> (Some e, cache_insert t e w')
           | (Inl err, w') \<Rightarrow> (None, w')))"

definition process_text :: "client \<Rightarrow> pystr \<Rightarrow> nat \<Rightarrow> nat \<Rightarrow> world \<Rightarrow> world" where
  "process_text client t idx tot w =
     (case get_embedding client t (emit [Progress (idx + 1) tot t] w) of
        (r, w') \<Rightarrow>
          (case r of
             None \<Rightarrow> w'
           | Some e \<Rightarrow> if e \<noteq> [] then save_cache (write_row t e w') else w'))"

subsection \<open>The worker pool\<close>

text \<open>
  The threads of the pool interleave. A task holds a lock only inside one \<open>with\<close>
  block, so each block is one atomic step; the remote request and the test of line
  59 are steps of their own. The program counter says where the task stands.
\<close>

datatype pc =
    Queued
  | AtLookup
  | AtCall
  | AtInsert embedding
  | Returned "embedding option"
  | AtWrite embedding
  | AtSave
  | Done

fun task_step :: "client \<Rightarrow> pystr \<Rightarrow> nat \<Rightarrow> nat \<Rightarrow> pc \<Rightarrow> world \<Rightarrow> pc \<times> world" where
  "task_step client t idx tot Queued w = (AtLookup, emit [Progress (idx + 1) tot t] w)"
| "task_step client t idx tot AtLookup w =
     (case cache w t of Some e \<Rightarrow> (Returned (Some e), w) | None \<Rightarrow> (AtCall, w))"
| "task_step client t idx tot AtCall w =
     (case remote_call client t w of
        (Inr e, w') \<Rightarrow> (AtInsert e, w')
      | (Inl err, w') \<Rightarrow> (Returned None, w'))"
| "task_step client t idx tot (AtInsert e) w = (Returned (Some e), cache_insert t e w)"
| "task_step client t idx tot (Returned r) w =
     (case r of None \<Rightarrow> (Done, w) | Some e \<Rightarrow> if e \<noteq> [] then (AtWrite e, w) else (Done, w))"
| "task_step client t idx tot (AtWrite e) w = (AtSave, write_row t e w)"
| "task_step client t idx tot AtSave w = (Done, save_cache w)"
| "task_step client t idx tot Done w = (Done, w)"

text \<open>
  A task of the pool: its text, where it stands, and the effects it has had so far.
  Its index is its position in the list of tasks.
\<close>

record task =
  ttext :: "pystr"
  pc :: "pc"
  hist :: "event list"

type_synonym pool = "task list \<times> world"

definition running :: "task list \<Rightarrow> nat" where
  "running ts = length (filter (\<lambda>k. pc k \<noteq> Queued \<and> pc k \<noteq> Done) ts)"

text \<open>
  \<open>ThreadPoolExecutor\<close> takes the submitted tasks from its queue in the order of
  submission and runs at most \<open>max_workers\<close> of them at a time.
\<close>

definition enabled :: "int \<Rightarrow> task list \<Rightarrow> nat \<Rightarrow> bool" where
  "enabled m ts i \<longleftrightarrow>
     i < length ts \<and> pc (ts ! i) \<noteq> Done \<and>
     (pc (ts ! i) = Queued \<longrightarrow>
        list_all (\<lambda>k. pc k \<noteq> Queued) (take i ts) \<and> int (running ts) < m)"

definition pool_step :: "client \<Rightarrow> int \<Rightarrow> nat \<Rightarrow> pool \<Rightarrow> pool option" where
  "pool_step client m i s =
     (case s of (ts, w) \<Rightarrow>
        if enabled m ts i then
          (case task_step client (ttext (ts ! i)) i (length ts) (pc (ts ! i)) w of
             (p', w') \<Rightarrow>
               Some (ts[i := (ts ! i)\<lparr>pc := p',
                       hist := hist (ts ! i) @ drop (length (events w)) (events w')\<rparr>], w'))
        else None)"

text \<open>
  A schedule is the list of the indices of the tasks that take the successive steps;
  a schedule that names a task which cannot take a step is not a schedule of the pool.
\<close>

fun run_schedule :: "client \<Rightarrow> int \<Rightarrow> nat list \<Rightarrow> pool \<Rightarrow> pool option" where
  "run_schedule client m [] s = Some s"
| "run_schedule client m (i # sched) s =
     (case pool_step client m i s of None \<Rightarrow> None | Some s' \<Rightarrow> run_schedule client m sched s')"

definition init_pool :: "pystr list \<Rightarrow> world \<Rightarrow> pool" where
  "init_pool texts w = (map (\<lambda>t. \<lparr>ttext = t, pc = Queued, hist = []\<rparr>) texts, w)"

definition all_done :: "task list \<Rightarrow> bool" where
  "all_done ts = list_all (\<lambda>k. pc k = Done) ts"

subsection \<open>The main program\<close>

text \<open>Lines 71-74: the file is opened for appending; the header goes into an empty file.\<close>

definition open_output :: "world \<Rightarrow> world" where
  "open_output w = (if output_csv w = [] then w\<lparr>output_csv := [Header]\<rparr> else w)"

text \<open>
  \<open>process_excel_parallel\<close>, with the schedule that the threads follow as a further
  argument. The result is the exception that ends the run, if any, and the state it
  leaves; \<open>None\<close> says that the schedule is not one of a complete run.
  \<open>ThreadPoolExecutor\<close> raises ValueError for \<open>max_workers \<le> 0\<close>.
\<close>

definition process_excel_parallel ::
  "client \<Rightarrow> sheet option \<Rightarrow> int \<Rightarrow> nat list \<Rightarrow> world \<Rightarrow> (py_error option \<times> world) option" where
  "process_excel_parallel client input max_threads sched w =
     (case read_texts input of
        Inl e \<Rightarrow> Some (Some e, load_cache w)
      | Inr texts \<Rightarrow>
          if max_threads \<le> 0 then Some (Some ValueError, open_output (load_cache w))
          else
            (case run_schedule client max_threads sched (init_pool texts (open_output (load_cache w))) of
               None \<Rightarrow> None
             | Some (ts, w') \<Rightarrow> if all_done ts then Some (None, emit [Completed] w') else None))"

text \<open>
  A run of the script: a new process, whose \<open>cache\<close> is the empty dictionary of line
  21, calls \<open>process_excel_parallel\<close> with five threads (line 87). The files are what
  the run before left.
\<close>

definition new_process :: "world \<Rightarrow> world" where
  "new_process w = w\<lparr>cache := Map.empty, events := []\<rparr>"

definition script ::
  "client \<Rightarrow> sheet option \<Rightarrow> int \<Rightarrow> nat list \<Rightarrow> world \<Rightarrow> (py_error option \<times> world) option" where
  "script client input max_threads sched w =
     process_excel_parallel client input max_threads sched (new_process w)"

definition main :: "client \<Rightarrow> sheet option \<Rightarrow> nat list \<Rightarrow> world \<Rightarrow> (py_error option \<times> world) option" where
  "main client input sched w = script client input 5 sched w"

text \<open>Several runs in a row, each with its client, input, pool size and schedule.\<close>

fun runs :: "(client \<times> sheet option \<times> int \<times> nat list) list \<Rightarrow> world \<Rightarrow> world option" where
  "runs [] w = Some w"
| "runs ((client, input, max_threads, sched) # rest) w =
     (case script client input max_threads sched w of
        None \<Rightarrow> None
      | Some (_, w') \<Rightarrow> runs rest w')"

text \<open>The tasks one after the other, in the order of the input.\<close>

fun run_tasks :: "client \<Rightarrow> nat \<Rightarrow> nat \<Rightarrow> pystr list \<Rightarrow> world \<Rightarrow> world" where
  "run_tasks client tot idx [] w = w"
| "run_tasks client tot idx (t # ts) w =
     run_tasks client tot (idx + 1) ts (process_text client t idx tot w)"

subsection \<open>Notions used in the statements\<close>


text \<open>
  The effects that a task standing at a given place has had: the history of a task
  is fixed by the place and by whether the cache answered.
\<close>

definition task_ok :: "nat \<Rightarrow> nat \<Rightarrow> task \<Rightarrow> bool" where
  "task_ok n i k \<longleftrightarrow>
     (let t = ttext k; P = Progress (i + 1) n t in
      case pc k of
        Queued \<Rightarrow> hist k = []
      | AtLookup \<Rightarrow> hist k = [P]
      | AtCall \<Rightarrow> hist k = [P]
      | AtInsert e \<Rightarrow> hist k = [P, RemoteCall t]
      | Returned r \<Rightarrow>
          (case r of
             None \<Rightarrow> (\<exists>err. hist k = [P, RemoteCall t, Failed t err])
           | Some e \<Rightarrow> hist k = [P] \<or> hist k = [P, RemoteCall t, CacheInsert t e])
      | AtWrite e \<Rightarrow> e \<noteq> [] \<and> (hist k = [P] \<or> hist k = [P, RemoteCall t, CacheInsert t e])
      | AtSave \<Rightarrow>
          (\<exists>e. e \<noteq> [] \<and>
             (hist k = [P, RowWrite t e] \<or>
              hist k = [P, RemoteCall t, CacheInsert t e, RowWrite t e]))
      | Done \<Rightarrow>
          (\<exists>err. hist k = [P, RemoteCall t, Failed t err]) \<or>
          hist k = [P] \<or> hist k = [P, RemoteCall t, CacheInsert t []] \<or>
          (\<exists>e. e \<noteq> [] \<and>
             (hist k = [P, RowWrite t e, CachePersist] \<or>
              hist k = [P, RemoteCall t, CacheInsert t e, RowWrite t e, CachePersist])))"

text \<open>The shape of the pool: the texts stay, and every task has the history of its place.\<close>

definition pool_ok :: "pystr list \<Rightarrow> pool \<Rightarrow> bool" where
  "pool_ok texts s \<longleftrightarrow>
     map ttext (fst s) = texts \<and> (\<forall>j<length (fst s). task_ok (length texts) j (fst s ! j))"

subsection \<open>Concrete inputs\<close>

text \<open>A state with no cache file and no output file.\<close>

definition blank_world :: world where
  "blank_world = \<lparr>cache = Map.empty, cache_file = None, output_csv = [], events = []\<rparr>"

text \<open>A client whose answer differs from request to request.\<close>

definition race_client :: client where
  "race_client h t = Inr [real (length h) + 1]"

text \<open>The entry that the cache holds for a text, and where the tasks stand, after a schedule.\<close>

definition entry_after ::
  "client \<Rightarrow> int \<Rightarrow> nat list \<Rightarrow> pystr list \<Rightarrow> world \<Rightarrow> pystr \<Rightarrow> embedding option option" where
  "entry_after client m sched texts w t =
     (case run_schedule client m sched (init_pool texts w) of
        None \<Rightarrow> None
      | Some (ts, w') \<Rightarrow> Some (cache w' t))"

definition pcs_after :: "client \<Rightarrow> int \<Rightarrow> nat list \<Rightarrow> pystr list \<Rightarrow> world \<Rightarrow> pc list option" where
  "pcs_after client m sched texts w =
     (case run_schedule client m sched (init_pool texts w) of
        None \<Rightarrow> None
      | Some (ts, w') \<Rightarrow> Some (map pc ts))"

text \<open>A sheet with the label row and the one text "a".\<close>

definition sheet_a :: "sheet option" where
  "sheet_a = Some [[Str (lit ''text'')], [Str (lit ''a'')]]"

text \<open>
  What a task may still add to the requests for a text: one request, as long as the
  task has that text and has not passed the request.
\<close>

definition may_call :: "pystr \<Rightarrow> task \<Rightarrow> nat" where
  "may_call T k =
     (if ttext k = T \<and> (pc k = Queued \<or> pc k = AtLookup \<or> pc k = AtCall) then 1 else 0)"

text \<open>A data row as a task writes it: its embedding passed the test of line 59.\<close>

definition data_row :: "row \<Rightarrow> bool" where
  "data_row r = (case r of Header \<Rightarrow> False | Row t e \<Rightarrow> e \<noteq> [])"

text \<open>The output file of a pool is the file it started from, with data rows after it.\<close>

definition appended :: "row list \<Rightarrow> pool \<Rightarrow> bool" where
  "appended out0 s \<longleftrightarrow> (\<exists>rows. output_csv (snd s) = out0 @ rows \<and> list_all data_row rows)"

text \<open>A client that always raises, and a pool in which its first request has failed.\<close>

definition down :: api_error where
  "down = ApiError (lit ''down'')"

definition failing_client :: client where
  "failing_client h t = Inl down"

definition failed_tasks :: "task list" where
  "failed_tasks =
     [\<lparr>ttext = lit ''a'', pc = Returned None,
        hist = [Progress 1 2 (lit ''a''), RemoteCall (lit ''a''), Failed (lit ''a'') down]\<rparr>,
      \<lparr>ttext = lit ''b'', pc = AtLookup, hist = [Progress 2 2 (lit ''b'')]\<rparr>]"

definition failed_world :: world where
  "failed_world =
     \<lparr>cache = Map.empty, cache_file = None, output_csv = [],
        events = [Progress 1 2 (lit ''a''), RemoteCall (lit ''a''), Failed (lit ''a'') down,
                  Progress 2 2 (lit ''b'')]\<rparr>"

text \<open>A client that answers with the empty vector, and a pool that has cached it.\<close>

definition empty_client :: client where
  "empty_client h t = Inr []"

definition empty_tasks :: "task list" where
  "empty_tasks =
     [\<lparr>ttext = lit ''a'', pc = Returned (Some []),
        hist = [Progress 1 1 (lit ''a''), RemoteCall (lit ''a''), CacheInsert (lit ''a'') []]\<rparr>]"

definition empty_world :: world where
  "empty_world =
     \<lparr>cache = [lit ''a'' \<mapsto> []], cache_file = None, output_csv = [],
        events = [Progress 1 1 (lit ''a''), RemoteCall (lit ''a''), CacheInsert (lit ''a'') []]\<rparr>"





text \<open>
  Where a task may stand when its text was in the cache from the start, and what
  then holds of the pool: the entry stays, the text is not requested, and every row
  written for it carries the stored vector.
\<close>

definition cached_pc :: "embedding \<Rightarrow> pc \<Rightarrow> bool" where
  "cached_pc v p =
     (case p of AtCall \<Rightarrow> False | AtInsert e \<Rightarrow> False | Returned r \<Rightarrow> r = Some v
      | AtWrite e \<Rightarrow> e = v | _ \<Rightarrow> True)"

definition cached_inv :: "pystr \<Rightarrow> embedding \<Rightarrow> world \<Rightarrow> pool \<Rightarrow> bool" where
  "cached_inv T v w0 s \<longleftrightarrow>
     cache (snd s) T = Some v \<and>
     count_list (calls (snd s)) T = count_list (calls w0) T \<and>
     (\<forall>e. RowWrite T e \<in> set (events (snd s)) \<longrightarrow> RowWrite T e \<in> set (events w0) \<or> e = v) \<and>
     (\<forall>j<length (fst s). ttext (fst s ! j) = T \<longrightarrow> cached_pc v (pc (fst s ! j)))"

text \<open>
  What holds of the one task of a text that occurs once: the vector it has in hand is
  the entry of the cache, and once it has written its row and ended, the cache file
  holds that vector.
\<close>

definition single_ok :: "pystr \<Rightarrow> pc \<Rightarrow> world \<Rightarrow> bool" where
  "single_ok T p u \<longleftrightarrow>
     (\<forall>e. p = Returned (Some e) \<or> p = AtWrite e \<longrightarrow> cache u T = Some e) \<and>
     (\<forall>e. RowWrite T e \<in> set (events u) \<longrightarrow>
        cache u T = Some e \<and>
        (p = AtSave \<or> p = Done \<and> (\<exists>f. cache_file u = Some f \<and> f T = Some e)))"

definition single_inv :: "pystr \<Rightarrow> pool \<Rightarrow> bool" where
  "single_inv T s \<longleftrightarrow>
     (\<forall>j<length (fst s). \<forall>j'<length (fst s).
        ttext (fst s ! j) = T \<and> ttext (fst s ! j') = T \<longrightarrow> j = j') \<and>
     (\<forall>e. RowWrite T e \<in> set (events (snd s)) \<longrightarrow>
        (\<exists>j<length (fst s). ttext (fst s ! j) = T)) \<and>
     (\<forall>j<length (fst s). ttext (fst s ! j) = T \<longrightarrow> single_ok T (pc (fst s ! j)) (snd s))"

text \<open>The states after a first and after a second run of the script on the sheet with "a".\<close>

definition first_run_world :: world where
  "first_run_world =
     \<lparr>cache = [lit ''a'' \<mapsto> [1]], cache_file = Some [lit ''a'' \<mapsto> [1]],
        output_csv = [Header, Row (lit ''a'') [1]],
        events = [Progress 1 1 (lit ''a''), RemoteCall (lit ''a''), CacheInsert (lit ''a'') [1],
                  RowWrite (lit ''a'') [1], CachePersist, Completed]\<rparr>"

definition second_run_world :: world where
  "second_run_world =
     \<lparr>cache = [lit ''a'' \<mapsto> [1]], cache_file = Some [lit ''a'' \<mapsto> [1]],
        output_csv = [Header, Row (lit ''a'') [1], Row (lit ''a'') [1]],
        events = [Progress 1 1 (lit ''a''), RowWrite (lit ''a'') [1], CachePersist, Completed]\<rparr>"

text \<open>
  The scenario of the three texts "alpha", "beta", "alpha": its client, its sheet, the
  effects of the run in which the tasks follow one another, and the state that run
  leaves when the output file held \<open>out0\<close> before.
\<close>

definition scenario_client :: client where
  "scenario_client h t =
     (if t = lit ''alpha'' then Inr [1] else if t = lit ''beta'' then Inr [2]
      else Inl (ApiError (lit ''unknown text'')))"

definition scenario_sheet :: "sheet option" where
  "scenario_sheet =
     Some [[Str (lit ''text'')], [Str (lit ''alpha'')], [Str (lit ''beta'')], [Str (lit ''alpha'')]]"

definition scenario_events :: "event list" where
  "scenario_events =
     [Progress 1 3 (lit ''alpha''), RemoteCall (lit ''alpha''), CacheInsert (lit ''alpha'') [1],
      RowWrite (lit ''alpha'') [1], CachePersist,
      Progress 2 3 (lit ''beta''), RemoteCall (lit ''beta''), CacheInsert (lit ''beta'') [2],
      RowWrite (lit ''beta'') [2], CachePersist,
      Progress 3 3 (lit ''alpha''), RowWrite (lit ''alpha'') [1], CachePersist]"

definition scenario_result :: "row list \<Rightarrow> world" where
  "scenario_result out0 =
     \<lparr>cache = [lit ''alpha'' \<mapsto> [1], lit ''beta'' \<mapsto> [2]],
        cache_file = Some [lit ''alpha'' \<mapsto> [1], lit ''beta'' \<mapsto> [2]],
        output_csv = (if out0 = [] then [Header] else out0) @
          [Row (lit ''alpha'') [1], Row (lit ''beta'') [2], Row (lit ''alpha'') [1]],
        events = scenario_events @ [Completed]\<rparr>"

text \<open>
  One task taking up to \<open>fuel\<close> steps with no other task in between, and a list of
  tasks that all wait in the queue.
\<close>

fun run_alone :: "client \<Rightarrow> pystr \<Rightarrow> nat \<Rightarrow> nat \<Rightarrow> nat \<Rightarrow> pc \<Rightarrow> world \<Rightarrow> pc \<times> world" where
  "run_alone client t idx tot 0 p w = (p, w)"
| "run_alone client t idx tot (Suc fuel) p w =
     (case task_step client t idx tot p w of (p', w') \<Rightarrow> run_alone client t idx tot fuel p' w')"

definition queued :: "task list \<Rightarrow> bool" where
  "queued qs = list_all (\<lambda>k. pc k = Queued) qs"

text \<open>
  What a task may still add to the requests for a text, given the cache: a task that
  has missed the text at its lookup will request it; a task that has not yet looked
  the text up will request it only if it finds no entry.
\<close>

definition weight :: "pystr \<Rightarrow> world \<Rightarrow> task \<Rightarrow> nat" where
  "weight T w k =
     (if ttext k = T \<and> (pc k = AtCall \<or> cache w T = None \<and> (pc k = Queued \<or> pc k = AtLookup))
      then 1 else 0)"

definition pending :: "pystr \<Rightarrow> pool \<Rightarrow> nat" where
  "pending T s = sum_list (map (weight T (snd s)) (fst s))"

text \<open>
  A sheet with the text "a" twice; the state after the run in which both tasks miss
  the cache, and after the run in which the tasks follow one another; a pool in which
  the first task has inserted its vector while the second waits, and the pool after
  the lookup of the second.
\<close>

definition sheet_aa :: "sheet option" where
  "sheet_aa = Some [[Str (lit ''text'')], [Str (lit ''a'')], [Str (lit ''a'')]]"

definition raced_world :: world where
  "raced_world =
     \<lparr>cache = [lit ''a'' \<mapsto> [2]], cache_file = Some [lit ''a'' \<mapsto> [2]],
        output_csv = [Header, Row (lit ''a'') [1], Row (lit ''a'') [2]],
        events = [Progress 1 2 (lit ''a''), RemoteCall (lit ''a''),
                  Progress 2 2 (lit ''a''), RemoteCall (lit ''a''),
                  CacheInsert (lit ''a'') [1], RowWrite (lit ''a'') [1], CachePersist,
                  CacheInsert (lit ''a'') [2], RowWrite (lit ''a'') [2], CachePersist,
                  Completed]\<rparr>"

definition serial_world :: world where
  "serial_world =
     \<lparr>cache = [lit ''a'' \<mapsto> [1]], cache_file = Some [lit ''a'' \<mapsto> [1]],
        output_csv = [Header, Row (lit ''a'') [1], Row (lit ''a'') [1]],
        events = [Progress 1 2 (lit ''a''), RemoteCall (lit ''a''), CacheInsert (lit ''a'') [1],
                  RowWrite (lit ''a'') [1], CachePersist,
                  Progress 2 2 (lit ''a''), RowWrite (lit ''a'') [1], CachePersist,
                  Completed]\<rparr>"

definition served_tasks :: "task list" where
  "served_tasks =
     [\<lparr>ttext = lit ''a'', pc = Returned (Some [1]),
        hist = [Progress 1 2 (lit ''a''), RemoteCall (lit ''a''), CacheInsert (lit ''a'') [1]]\<rparr>,
      \<lparr>ttext = lit ''a'', pc = Queued, hist = []\<rparr>]"

definition served_world :: world where
  "served_world =
     \<lparr>cache = [lit ''a'' \<mapsto> [1]], cache_file = None, output_csv = [Header],
        events = [Progress 1 2 (lit ''a''), RemoteCall (lit ''a''), CacheInsert (lit ''a'') [1]]\<rparr>"

definition hit_tasks :: "task list" where
  "hit_tasks =
     [\<lparr>ttext = lit ''a'', pc = Returned (Some [1]),
        hist = [Progress 1 2 (lit ''a''), RemoteCall (lit ''a''), CacheInsert (lit ''a'') [1]]\<rparr>,
      \<lparr>ttext = lit ''a'', pc = Returned (Some [1]), hist = [Progress 2 2 (lit ''a'')]\<rparr>]"

definition hit_world :: world where
  "hit_world =
     \<lparr>cache = [lit ''a'' \<mapsto> [1]], cache_file = None, output_csv = [Header],
        events = [Progress 1 2 (lit ''a''), RemoteCall (lit ''a''), CacheInsert (lit ''a'') [1],
                  Progress 2 2 (lit ''a'')]\<rparr>"

section \<open>Basic facts\<close>

lemma lit_simps: "lit [] = []" "lit (c # cs) = of_char c # lit cs"
  by (simp_all add: lit_def)

lemma emit_fields:
  "cache (emit es w) = cache w" "cache_file (emit es w) = cache_file w"
  "output_csv (emit es w) = output_csv w" "events (emit es w) = events w @ es"
  by (simp_all add: emit_def)

lemma calls_emit: "calls (emit es w) = calls w @ concat (map call_of es)"
  by (simp add: calls_def emit_def)

lemma cache_insert_fields:
  "cache (cache_insert t e w) = (cache w)(t \<mapsto> e)"
  "cache_file (cache_insert t e w) = cache_file w"
  "output_csv (cache_insert t e w) = output_csv w"
  "events (cache_insert t e w) = events w @ [CacheInsert t e]"
  "calls (cache_insert t e w) = calls w"
  by (simp_all add: cache_insert_def emit_def calls_def)

lemma write_row_fields:
  "cache (write_row t e w) = cache w"
  "cache_file (write_row t e w) = cache_file w"
  "output_csv (write_row t e w) = output_csv w @ [Row t e]"
  "events (write_row t e w) = events w @ [RowWrite t e]"
  "calls (write_row t e w) = calls w"
  by (simp_all add: write_row_def emit_def calls_def)

lemma save_cache_fields:
  "cache (save_cache w) = cache w"
  "cache_file (save_cache w) = Some (cache w)"
  "output_csv (save_cache w) = output_csv w"
  "events (save_cache w) = events w @ [CachePersist]"
  "calls (save_cache w) = calls w"
  by (simp_all add: save_cache_def emit_def calls_def)

lemmas world_fields =
  emit_fields calls_emit cache_insert_fields write_row_fields save_cache_fields

text \<open>One step of a task, by where the task stands.\<close>

lemma task_step_elim:
  assumes "task_step client t idx tot p w = (p', w')" "p \<noteq> Done"
  obtains
    (start) "p = Queued" "p' = AtLookup" "w' = emit [Progress (idx + 1) tot t] w"
  | (hit) e where "p = AtLookup" "cache w t = Some e" "p' = Returned (Some e)" "w' = w"
  | (miss) "p = AtLookup" "cache w t = None" "p' = AtCall" "w' = w"
  | (call_ok) e where "p = AtCall" "client (calls w) t = Inr e" "p' = AtInsert e"
      "w' = emit [RemoteCall t] w"
  | (call_fail) err where "p = AtCall" "client (calls w) t = Inl err" "p' = Returned None"
      "w' = emit [RemoteCall t, Failed t err] w"
  | (ins) e where "p = AtInsert e" "p' = Returned (Some e)" "w' = cache_insert t e w"
  | (skip) r where "p = Returned r" "\<not> truthy r" "p' = Done" "w' = w"
  | (go) e where "p = Returned (Some e)" "e \<noteq> []" "p' = AtWrite e" "w' = w"
  | (wr) e where "p = AtWrite e" "p' = AtSave" "w' = write_row t e w"
  | (sv) "p = AtSave" "p' = Done" "w' = save_cache w"
  using assms
  by (cases p) (auto simp: remote_call_def truthy_def split: option.splits sum.splits if_splits)

lemma pool_step_elim:
  assumes "pool_step client m i (ts, w) = Some (ts', w')"
  obtains p' where "i < length ts" "pc (ts ! i) \<noteq> Done" "enabled m ts i"
    "task_step client (ttext (ts ! i)) i (length ts) (pc (ts ! i)) w = (p', w')"
    "ts' = ts[i := (ts ! i)\<lparr>pc := p', hist := hist (ts ! i) @ drop (length (events w)) (events w')\<rparr>]"
  using assms
  by (auto simp: pool_step_def enabled_def split: if_splits prod.splits)

text \<open>A property kept by every step holds after every schedule.\<close>

lemma run_schedule_invariant:
  assumes "run_schedule client m sched s = Some s'" and "I s"
    and "\<And>i a b. I a \<Longrightarrow> pool_step client m i a = Some b \<Longrightarrow> I b"
  shows "I s'"
  using assms(1,2)
proof (induction sched arbitrary: s)
  case Nil
  then show ?case by simp
next
  case (Cons i sched)
  then obtain b where b: "pool_step client m i s = Some b" "run_schedule client m sched b = Some s'"
    by (auto split: option.splits)
  from assms(3)[OF Cons.prems(2) b(1)] have "I b" .
  from Cons.IH[OF b(2) this] show ?case .
qed

lemma task_ok_step:
  assumes "task_ok n i k" "task_step client (ttext k) i n (pc k) w = (p', w')" "pc k \<noteq> Done"
  shows "task_ok n i (k\<lparr>pc := p', hist := hist k @ drop (length (events w)) (events w')\<rparr>)"
  using assms(2,3)
proof (cases rule: task_step_elim)
  case (skip r)
  with assms(1) show ?thesis
    by (cases r) (auto simp: task_ok_def truthy_def Let_def)
qed (use assms(1) in \<open>auto simp: task_ok_def Let_def world_fields\<close>)

text \<open>No step of a task removes an entry of the cache.\<close>

lemma cache_dom_step:
  assumes "task_step client t idx tot p w = (p', w')"
  shows "dom (cache w) \<subseteq> dom (cache w')"
  using assms
  by (cases p) (auto simp: world_fields remote_call_def split: option.splits sum.splits if_splits)

lemmas exec_defs =
  pool_step_def enabled_def running_def init_pool_def remote_call_def emit_def calls_def
  cache_insert_def write_row_def save_cache_def

lemmas run_defs =
  main_def script_def process_excel_parallel_def all_done_def open_output_def load_cache_def
  new_process_def read_texts_def read_excel_def iloc_first_def texts_of_def first_cell_def
  strip_def isspace_def

section \<open>The tasks one after the other\<close>

lemma running_idle: "all_done ds \<Longrightarrow> queued qs \<Longrightarrow> pc k = Queued \<Longrightarrow> running (ds @ k # qs) = 0"
  by (auto simp: running_def all_done_def queued_def list_all_iff)

lemma pool_step_at:
  assumes "pc k \<noteq> Done" "pc k = Queued \<Longrightarrow> all_done ds \<and> queued qs \<and> 0 < m"
    "task_step client (ttext k) (length ds) (length ds + Suc (length qs)) (pc k) w = (p', w')"
  shows "pool_step client m (length ds) (ds @ k # qs, w)
         = Some (ds @ k\<lparr>pc := p', hist := hist k @ drop (length (events w)) (events w')\<rparr> # qs, w')"
proof -
  have "enabled m (ds @ k # qs) (length ds)"
    using assms(1,2) running_idle[of ds qs k]
    by (auto simp: enabled_def all_done_def list_all_iff)
  with assms(3) show ?thesis
    by (simp add: pool_step_def)
qed

lemma run_schedule_append:
  "run_schedule client m (s1 @ s2) s =
     (case run_schedule client m s1 s of None \<Rightarrow> None | Some s' \<Rightarrow> run_schedule client m s2 s')"
  by (induction s1 arbitrary: s) (auto split: option.splits)

lemma task_step_not_queued: "task_step client t idx tot p w = (p', w') \<Longrightarrow> p' \<noteq> Queued"
  by (cases p) (auto split: option.splits sum.splits if_splits prod.splits)

lemma run_alone_Done: "run_alone client t idx tot fuel Done w = (Done, w)"
  by (induction fuel) auto

lemma solo:
  assumes "pc k = Queued \<Longrightarrow> all_done ds \<and> queued qs \<and> 0 < m"
  shows "\<exists>sched k'. run_schedule client m sched (ds @ k # qs, w)
            = Some (ds @ k' # qs,
                    snd (run_alone client (ttext k) (length ds) (length ds + Suc (length qs)) fuel (pc k) w)) \<and>
          ttext k' = ttext k \<and>
          pc k' = fst (run_alone client (ttext k) (length ds) (length ds + Suc (length qs)) fuel (pc k) w)"
  using assms
proof (induction fuel arbitrary: k w)
  case 0
  show ?case by (intro exI[of _ "[]"] exI[of _ k]) simp
next
  case (Suc fuel)
  show ?case
  proof (cases "pc k = Done")
    case True
    then show ?thesis
      by (intro exI[of _ "[]"] exI[of _ k]) (simp add: run_alone_Done)
  next
    case False
    obtain p' w' where st: "task_step client (ttext k) (length ds) (length ds + Suc (length qs)) (pc k) w = (p', w')"
      by (cases "task_step client (ttext k) (length ds) (length ds + Suc (length qs)) (pc k) w")
    let ?k1 = "k\<lparr>pc := p', hist := hist k @ drop (length (events w)) (events w')\<rparr>"
    from pool_step_at[OF False Suc.prems st]
    have one: "pool_step client m (length ds) (ds @ k # qs, w) = Some (ds @ ?k1 # qs, w')" .
    from task_step_not_queued[OF st] have "pc ?k1 \<noteq> Queued" by simp
    then have "pc ?k1 = Queued \<Longrightarrow> all_done ds \<and> queued qs \<and> 0 < m" by simp
    from Suc.IH[of ?k1 w', OF this] obtain sched k' where
      r: "run_schedule client m sched (ds @ ?k1 # qs, w')
          = Some (ds @ k' # qs, snd (run_alone client (ttext k) (length ds) (length ds + Suc (length qs)) fuel p' w'))"
        "ttext k' = ttext k"
        "pc k' = fst (run_alone client (ttext k) (length ds) (length ds + Suc (length qs)) fuel p' w')"
      by auto
    show ?thesis
      by (intro exI[of _ "length ds # sched"] exI[of _ k']) (use one r st in simp)
  qed
qed

text \<open>Seven steps of a task on its own are one call of \<open>process_text\<close>.\<close>

lemma run_alone_process_text:
  "run_alone client t idx tot 7 Queued w = (Done, process_text client t idx tot w)"
  by (simp add: eval_nat_numeral process_text_def get_embedding_def remote_call_def
      split: option.splits sum.splits)

lemma sequential_from:
  assumes "all_done ds" "0 < m"
  shows "\<exists>sched ts'. run_schedule client m sched
              (ds @ map (\<lambda>t. \<lparr>ttext = t, pc = Queued, hist = []\<rparr>) rest, w)
            = Some (ts', run_tasks client (length ds + length rest) (length ds) rest w) \<and>
          all_done ts'"
  using assms(1)
proof (induction rest arbitrary: ds w)
  case Nil
  then show ?case by (intro exI[of _ "[]"] exI[of _ ds]) simp
next
  case (Cons t rest)
  let ?q = "map (\<lambda>t. \<lparr>ttext = t, pc = Queued, hist = []\<rparr>) rest"
  let ?k = "\<lparr>ttext = t, pc = Queued, hist = []\<rparr>"
  let ?n = "length ds + Suc (length rest)"
  have q: "queued ?q" by (simp add: queued_def list_all_iff)
  from solo[of ?k ds ?q m client w 7] Cons.prems q assms(2)
  obtain s1 k' where s1: "run_schedule client m s1 (ds @ ?k # ?q, w)
      = Some (ds @ k' # ?q, process_text client t (length ds) ?n w)" "pc k' = Done"
    by (auto simp: run_alone_process_text)
  from Cons.prems s1(2) have "all_done (ds @ [k'])" by (simp add: all_done_def)
  from Cons.IH[OF this, of "process_text client t (length ds) ?n w"]
  obtain s2 ts' where s2: "run_schedule client m s2 (ds @ k' # ?q, process_text client t (length ds) ?n w)
      = Some (ts', run_tasks client ?n (Suc (length ds)) rest (process_text client t (length ds) ?n w))"
      "all_done ts'"
    by auto
  show ?case
    by (intro exI[of _ "s1 @ s2"] exI[of _ ts']) (use s1 s2 in \<open>simp add: run_schedule_append\<close>)
qed

text \<open>
  For every pool size above zero there is a schedule in which the tasks follow one
  another; it ends with every task done, in the state that the calls of
  \<open>process_text\<close> in input order give. So every run has a complete schedule, whatever
  the client answers or raises.
\<close>

lemma sequential_run:
  assumes "0 < m"
  shows "\<exists>sched ts. run_schedule client m sched (init_pool texts w)
            = Some (ts, run_tasks client (length texts) 0 texts w) \<and> all_done ts"
  using sequential_from[of "[]" m client texts w] assms
  by (simp add: init_pool_def all_done_def)

lemma script_completes:
  assumes "0 < m" "read_texts input = Inr texts"
  shows "\<exists>sched. script client input m sched w
           = Some (None, emit [Completed]
               (run_tasks client (length texts) 0 texts (open_output (load_cache (new_process w)))))"
proof -
  from sequential_run[OF assms(1), of client texts "open_output (load_cache (new_process w))"]
  obtain sched ts where "run_schedule client m sched
      (init_pool texts (open_output (load_cache (new_process w))))
      = Some (ts, run_tasks client (length texts) 0 texts (open_output (load_cache (new_process w))))"
    "all_done ts"
    by blast
  with assms show ?thesis
    by (intro exI[of _ sched]) (simp add: script_def process_excel_parallel_def)
qed

section \<open>The input column\<close>

text \<open>On a column of text cells the code takes the items that the specification names.\<close>

lemma texts_of_text: "list_all is_text col \<Longrightarrow> texts_of col = spec_items col"
  by (induction col rule: spec_items.induct) (auto simp: texts_of_def is_text_def)

lemma texts_of_filter_map:
  "texts_of col = filter (\<lambda>s. s \<noteq> []) (map (\<lambda>c. strip (py_str c)) col)"
  by (induction col) (simp_all add: texts_of_def)

text \<open>
  C1 (as amended). For every sheet whose first row has a column, the work items are,
  in row order, the trimmed string forms of the first-column cells below row 1 that
  are non-empty after trimming; row 1 gives the column labels and is not a work item.
  A sheet without columns and a missing file end the run with an exception.
\<close>

theorem work_items_below_header:
  "(hdr \<noteq> [] \<longrightarrow>
      read_texts (Some (hdr # rows))
        = Inr (filter (\<lambda>s. s \<noteq> []) (map (\<lambda>r. strip (py_str (first_cell r))) rows))) \<and>
   read_texts (Some ([] # rows)) = Inl IndexError \<and>
   read_texts (Some []) = Inl IndexError \<and>
   read_texts None = Inl FileNotFoundError"
  by (simp add: read_texts_def read_excel_def iloc_first_def texts_of_filter_map comp_def)

theorem work_items_below_header_witness:
  "[Str (lit ''title'')] \<noteq> [] \<and>
   read_texts (Some [[Str (lit ''title'')], [Str (lit '' a '')], [NaN], [Str (lit ''  '')],
                     [Other (lit ''1.0'')], [Str (lit ''b'')]])
     = Inr [lit ''a'', lit ''nan'', lit ''1.0'', lit ''b'']"
  using work_items_below_header[of "[Str (lit ''title'')]"
      "[[Str (lit '' a '')], [NaN], [Str (lit ''  '')], [Other (lit ''1.0'')], [Str (lit ''b'')]]"]
  by (simp add: first_cell_def strip_def isspace_def lit_def)

text \<open>
  C1 as stated fails: for a column with the cells "title" and "a" the only work item
  is "a", while the claim counts "title" as a work item too.
\<close>

theorem header_row_counterexample:
  "read_texts (Some [[Str (lit ''title'')], [Str (lit ''a'')]]) = Inr [lit ''a''] \<and>
   spec_work_items [[Str (lit ''title'')], [Str (lit ''a'')]] = [lit ''title'', lit ''a''] \<and>
   read_texts (Some [[Str (lit ''title'')], [Str (lit ''a'')]])
     \<noteq> Inr (spec_work_items [[Str (lit ''title'')], [Str (lit ''a'')]])"
  by (simp add: read_texts_def read_excel_def iloc_first_def texts_of_def first_cell_def
      spec_work_items_def strip_def isspace_def lit_def)





section \<open>The cache\<close>

text \<open>
  C2 as stated fails. Two tasks for the same text both miss the cache; the first
  stores [1], and the insert of the second, performed on a cache that holds the
  entry [1], replaces it by [2].
\<close>

theorem insert_overwrites_counterexample:
  "entry_after race_client 5 [0, 0, 0, 1, 1, 1, 0] [lit ''a'', lit ''a''] blank_world (lit ''a'')
     = Some (Some [1]) \<and>
   pcs_after race_client 5 [0, 0, 0, 1, 1, 1, 0] [lit ''a'', lit ''a''] blank_world
     = Some [Returned (Some [1]), AtInsert [2]] \<and>
   entry_after race_client 5 [0, 0, 0, 1, 1, 1, 0, 1] [lit ''a'', lit ''a''] blank_world (lit ''a'')
     = Some (Some [2]) \<and>
   cache (cache_insert (lit ''a'') [2] (blank_world\<lparr>cache := [lit ''a'' \<mapsto> [1]]\<rparr>)) (lit ''a'')
     \<noteq> cache (blank_world\<lparr>cache := [lit ''a'' \<mapsto> [1]]\<rparr>) (lit ''a'')"
  by (simp add: entry_after_def pcs_after_def exec_defs race_client_def blank_world_def lit_def)

text \<open>
  C2 (as amended). The insert stores the pair whether or not the text has an entry,
  so an entry that is present is replaced, and it leaves the entries of all other
  texts as they are; no other step of a task changes the cache; and a task whose
  lookup finds its text returns the stored vector without reaching the insert.
\<close>

theorem cache_changes_only_by_insert:
  assumes "pool_step client m i (ts, w) = Some (ts', w')"
  shows "(\<forall>e. pc (ts ! i) = AtInsert e \<longrightarrow> cache w' = (cache w)(ttext (ts ! i) \<mapsto> e)) \<and>
         ((\<forall>e. pc (ts ! i) \<noteq> AtInsert e) \<longrightarrow> cache w' = cache w) \<and>
         (\<forall>v. pc (ts ! i) = AtLookup \<and> cache w (ttext (ts ! i)) = Some v \<longrightarrow>
              pc (ts' ! i) = Returned (Some v))"
  using assms
proof (cases rule: pool_step_elim)
  case (1 p')
  from 1(4,2) show ?thesis
    by (cases rule: task_step_elim) (use 1(1,5) in \<open>auto simp: world_fields\<close>)
qed

theorem cache_changes_only_by_insert_witness:
  "pool_step race_client 5 0
     ([\<lparr>ttext = lit ''a'', pc = AtInsert [2], hist = []\<rparr>], blank_world\<lparr>cache := [lit ''a'' \<mapsto> [1]]\<rparr>)
   = Some ([\<lparr>ttext = lit ''a'', pc = Returned (Some [2]), hist = [CacheInsert (lit ''a'') [2]]\<rparr>],
           blank_world\<lparr>cache := [lit ''a'' \<mapsto> [2]], events := [CacheInsert (lit ''a'') [2]]\<rparr>) \<and>
   cache (blank_world\<lparr>cache := [lit ''a'' \<mapsto> [2]], events := [CacheInsert (lit ''a'') [2]]\<rparr>)
     = (cache (blank_world\<lparr>cache := [lit ''a'' \<mapsto> [1]]\<rparr>))(lit ''a'' \<mapsto> [2])"
  using cache_changes_only_by_insert[of race_client 5 0
      "[\<lparr>ttext = lit ''a'', pc = AtInsert [2], hist = []\<rparr>]"
      "blank_world\<lparr>cache := [lit ''a'' \<mapsto> [1]]\<rparr>"
      "[\<lparr>ttext = lit ''a'', pc = Returned (Some [2]), hist = [CacheInsert (lit ''a'') [2]]\<rparr>]"
      "blank_world\<lparr>cache := [lit ''a'' \<mapsto> [2]], events := [CacheInsert (lit ''a'') [2]]\<rparr>"]
  by (simp add: exec_defs race_client_def blank_world_def lit_def)

section \<open>Remote requests\<close>

lemma sum_list_map_update:
  fixes f :: "'a \<Rightarrow> nat"
  shows "i < length xs \<Longrightarrow> sum_list (map f (xs[i := x])) + f (xs ! i) = sum_list (map f xs) + f x"
proof (induction xs arbitrary: i)
  case Nil
  then show ?case by simp
next
  case (Cons a xs)
  then show ?case by (cases i) auto
qed

lemma calls_step:
  assumes "pool_step client m i (ts, w) = Some (ts', w')"
  shows "count_list (calls w') T + sum_list (map (may_call T) ts')
         \<le> count_list (calls w) T + sum_list (map (may_call T) ts)"
  using assms
proof (cases rule: pool_step_elim)
  case (1 p')
  let ?k = "(ts ! i)\<lparr>pc := p', hist := hist (ts ! i) @ drop (length (events w)) (events w')\<rparr>"
  have upd: "sum_list (map (may_call T) ts') + may_call T (ts ! i)
      = sum_list (map (may_call T) ts) + may_call T ?k"
    using sum_list_map_update[OF 1(1), of "may_call T" ?k] 1(5) by simp
  have "count_list (calls w') T + may_call T ?k \<le> count_list (calls w) T + may_call T (ts ! i)"
    using 1(4,2)
    by (cases rule: task_step_elim) (auto simp: may_call_def world_fields)
  with upd show ?thesis by linarith
qed

lemma may_call_init:
  "sum_list (map (may_call T) (fst (init_pool texts w))) = count_list texts T"
  by (induction texts) (auto simp: init_pool_def may_call_def)

text \<open>
  In every state that a pool reaches, a text has been requested at most as often as
  it occurs in the input.
\<close>

lemma calls_bound:
  assumes "run_schedule client m sched (init_pool texts w0) = Some (ts, w)"
  shows "count_list (calls w) T \<le> count_list (calls w0) T + count_list texts T"
proof -
  let ?I = "\<lambda>s. count_list (calls (snd s)) T + sum_list (map (may_call T) (fst s))
                \<le> count_list (calls w0) T + count_list texts T"
  have "?I (ts, w)"
  proof (rule run_schedule_invariant[OF assms, where I = ?I])
    show "?I (init_pool texts w0)"
      using may_call_init[of T texts w0] by (simp add: init_pool_def)
  next
    fix i a b
    assume "?I a" "pool_step client m i a = Some b"
    then show "?I b"
      using calls_step[of client m i "fst a" "snd a" "fst b" "snd b" T] by simp
  qed
  then show ?thesis by simp
qed

lemma calls_loaded: "calls (load_cache (new_process w)) = []"
  by (simp add: calls_def load_cache_def new_process_def split: option.splits)

lemma calls_fresh: "calls (open_output (load_cache (new_process w))) = []"
  by (simp add: calls_def open_output_def load_cache_def new_process_def split: option.splits)

text \<open>The three ways in which a run of the script ends.\<close>

lemma script_cases:
  assumes "script client input m sched w = Some (r, w')"
  obtains (read_error) e where "read_texts input = Inl e" "r = Some e"
      "w' = load_cache (new_process w)"
  | (pool_error) texts where "read_texts input = Inr texts" "m \<le> 0" "r = Some ValueError"
      "w' = open_output (load_cache (new_process w))"
  | (complete) texts ts w1 where "read_texts input = Inr texts" "0 < m" "r = None"
      "run_schedule client m sched (init_pool texts (open_output (load_cache (new_process w))))
         = Some (ts, w1)"
      "all_done ts" "w' = emit [Completed] w1"
  using assms
  by (auto simp: script_def process_excel_parallel_def
      split: sum.splits if_splits option.splits prod.splits)

text \<open>
  The bound cannot be lowered for a text that occurs twice: when both of its tasks
  look the text up before either inserts it, both request it.
\<close>

lemma duplicate_text_race:
  "run_schedule race_client 5 [0, 0, 0, 1, 1, 1] (init_pool [lit ''a'', lit ''a''] blank_world)
   = Some ([\<lparr>ttext = lit ''a'', pc = AtInsert [1],
              hist = [Progress 1 2 (lit ''a''), RemoteCall (lit ''a'')]\<rparr>,
            \<lparr>ttext = lit ''a'', pc = AtInsert [2],
              hist = [Progress 2 2 (lit ''a''), RemoteCall (lit ''a'')]\<rparr>],
           \<lparr>cache = Map.empty, cache_file = None, output_csv = [],
              events = [Progress 1 2 (lit ''a''), RemoteCall (lit ''a''),
                        Progress 2 2 (lit ''a''), RemoteCall (lit ''a'')]\<rparr>)"
  by (simp add: exec_defs race_client_def blank_world_def lit_def)

text \<open>
  The requests made for a text and the requests that its tasks may still make never
  grow together, from whatever state the pool continues.
\<close>

lemma pending_weight: "pending T (ts, w) = sum_list (map (weight T w) ts)"
  by (simp add: pending_def)

lemma sum_list_update_le:
  fixes f g :: "'a \<Rightarrow> nat"
  assumes "\<And>x. g x \<le> f x"
  shows "i < length xs \<Longrightarrow> sum_list (map g (xs[i := y])) + f (xs ! i) \<le> sum_list (map f xs) + g y"
proof (induction xs arbitrary: i)
  case Nil
  then show ?case by simp
next
  case (Cons a xs)
  have le: "sum_list (map g xs) \<le> sum_list (map f xs)"
    by (rule sum_list_mono) (simp add: assms)
  show ?case
  proof (cases i)
    case 0
    with le show ?thesis by simp
  next
    case (Suc j)
    with Cons.prems Cons.IH[of j] assms[of a] show ?thesis by simp
  qed
qed

lemma pending_step:
  assumes "pool_step client m i (ts, w) = Some (ts', w')"
  shows "count_list (calls w') T + pending T (ts', w') \<le> count_list (calls w) T + pending T (ts, w)"
  using assms
proof (cases rule: pool_step_elim)
  case (1 p')
  let ?k = "(ts ! i)\<lparr>pc := p', hist := hist (ts ! i) @ drop (length (events w)) (events w')\<rparr>"
  from cache_dom_step[OF 1(4)] have mono: "cache w' T = None \<Longrightarrow> cache w T = None"
    by auto
  then have "\<And>k. weight T w' k \<le> weight T w k"
    by (auto simp: weight_def)
  from sum_list_update_le[of "weight T w'" "weight T w", OF this 1(1), of ?k] 1(5)
  have upd: "pending T (ts', w') + weight T w (ts ! i) \<le> pending T (ts, w) + weight T w' ?k"
    by (simp add: pending_weight)
  have "count_list (calls w') T + weight T w' ?k \<le> count_list (calls w) T + weight T w (ts ! i)"
    using 1(4,2)
    by (cases rule: task_step_elim) (auto simp: weight_def world_fields)
  with upd show ?thesis by linarith
qed

lemma pending_run:
  assumes "run_schedule client m sched s = Some s'"
  shows "count_list (calls (snd s')) T + pending T s' \<le> count_list (calls (snd s)) T + pending T s"
proof (rule run_schedule_invariant[OF assms,
      where I = "\<lambda>a. count_list (calls (snd a)) T + pending T a
                   \<le> count_list (calls (snd s)) T + pending T s"])
  show "count_list (calls (snd s)) T + pending T s \<le> count_list (calls (snd s)) T + pending T s"
    by simp
next
  fix i a b
  assume "count_list (calls (snd a)) T + pending T a \<le> count_list (calls (snd s)) T + pending T s"
    "pool_step client m i a = Some b"
  then show "count_list (calls (snd b)) T + pending T b \<le> count_list (calls (snd s)) T + pending T s"
    using pending_step[of client m i "fst a" "snd a" "fst b" "snd b" T] by simp
qed

text \<open>
  C3 as stated fails. On the column a, a both tasks look the text up before either
  inserts it: the lookups pass through the lock one after the other, both miss, and
  the complete run requests "a" twice.
\<close>

theorem duplicate_request_counterexample:
  "read_texts sheet_aa = Inr [lit ''a'', lit ''a''] \<and>
   main race_client sheet_aa [0, 0, 0, 1, 1, 1, 0, 0, 0, 0, 1, 1, 1, 1] blank_world
     = Some (None, raced_world) \<and>
   calls raced_world = [lit ''a'', lit ''a''] \<and>
   count_list (calls raced_world) (lit ''a'') = 2"
  by (simp add: sheet_aa_def raced_world_def run_defs exec_defs race_client_def blank_world_def
      lit_def)

text \<open>
  C3 (as amended). Within one run, whatever the pool size and however the threads
  interleave, a text is requested from the remote client at most as often as it occurs
  in the input, hence at most once when it occurs once: in every state that the pool
  reaches, and at the end of the run. From any state of the pool, the further requests
  for a text are bounded by the tasks of that text that have missed it at their lookup
  or, while the cache holds no entry for it, have yet to look it up; so once the text
  is in the cache and no task stands between a missed lookup and its request, the
  text is not requested again.
\<close>

lemma pool_calls_le:
  assumes "run_schedule client m sched (init_pool texts (open_output (load_cache (new_process w0))))
      = Some (us, u)"
  shows "count_list (calls u) T \<le> count_list texts T"
  using calls_bound[OF assms, of T] by (simp add: calls_fresh)

lemma script_calls_le:
  assumes "read_texts input = Inr texts" "script client input m sched w0 = Some (r, w1)"
  shows "count_list (calls w1) T \<le> count_list texts T"
  using assms(2)
proof (cases rule: script_cases)
  case (complete texts' ts' w2)
  with assms(1) have "texts' = texts" by simp
  with calls_bound[OF complete(4), of T] complete(6) show ?thesis
    by (simp add: calls_fresh world_fields)
qed (simp_all add: calls_fresh calls_loaded)

theorem requests_bounded_by_occurrences:
  "(run_schedule client m sched (ts, w) = Some (ts', w') \<longrightarrow>
      count_list (calls w') T \<le> count_list (calls w) T + pending T (ts, w)) \<and>
   (cache w T \<noteq> None \<and> AtCall \<notin> set (map pc (filter (\<lambda>k. ttext k = T) ts)) \<and>
    run_schedule client m sched (ts, w) = Some (ts', w') \<longrightarrow>
      count_list (calls w') T \<le> count_list (calls w) T) \<and>
   (read_texts input = Inr texts \<and>
    run_schedule client m sched (init_pool texts (open_output (load_cache (new_process w0))))
      = Some (us, u) \<longrightarrow>
      count_list (calls u) T \<le> count_list texts T) \<and>
   (read_texts input = Inr texts \<and> script client input m sched w0 = Some (r, w1) \<longrightarrow>
      count_list (calls w1) T \<le> count_list texts T) \<and>
   (read_texts input = Inr texts \<and> count_list texts T = 1 \<and>
    run_schedule client m sched (init_pool texts (open_output (load_cache (new_process w0))))
      = Some (us, u) \<longrightarrow>
      count_list (calls u) T \<le> 1) \<and>
   (read_texts input = Inr texts \<and> count_list texts T = 1 \<and>
    script client input m sched w0 = Some (r, w1) \<longrightarrow>
      count_list (calls w1) T \<le> 1)"
proof (intro conjI impI; (elim conjE)?)
  assume "run_schedule client m sched (ts, w) = Some (ts', w')"
  from pending_run[OF this, of T]
  show "count_list (calls w') T \<le> count_list (calls w) T + pending T (ts, w)"
    by simp
next
  assume c: "cache w T \<noteq> None" and a: "AtCall \<notin> set (map pc (filter (\<lambda>k. ttext k = T) ts))"
    and run: "run_schedule client m sched (ts, w) = Some (ts', w')"
  from a have "\<And>k. k \<in> set ts \<Longrightarrow> ttext k = T \<Longrightarrow> pc k \<noteq> AtCall"
    by force
  with c have "pending T (ts, w) = 0"
    by (auto simp: pending_def weight_def)
  with pending_run[OF run, of T] show "count_list (calls w') T \<le> count_list (calls w) T"
    by simp
next
  assume "read_texts input = Inr texts"
    "run_schedule client m sched (init_pool texts (open_output (load_cache (new_process w0))))
      = Some (us, u)"
  from pool_calls_le[OF this(2)] show "count_list (calls u) T \<le> count_list texts T" .
next
  assume "read_texts input = Inr texts" "script client input m sched w0 = Some (r, w1)"
  from script_calls_le[OF this] show "count_list (calls w1) T \<le> count_list texts T" .
next
  assume "count_list texts T = 1"
    "run_schedule client m sched (init_pool texts (open_output (load_cache (new_process w0))))
      = Some (us, u)"
  with pool_calls_le[of client m sched texts w0 us u T] show "count_list (calls u) T \<le> 1"
    by simp
next
  assume "read_texts input = Inr texts" "count_list texts T = 1"
    "script client input m sched w0 = Some (r, w1)"
  with script_calls_le[of input texts client m sched w0 r w1 T]
  show "count_list (calls w1) T \<le> 1"
    by simp
qed

theorem requests_bounded_by_occurrences_witness:
  "cache served_world (lit ''a'') \<noteq> None \<and>
   AtCall \<notin> set (map pc (filter (\<lambda>k. ttext k = lit ''a'') served_tasks)) \<and>
   run_schedule race_client 5 [1, 1] (served_tasks, served_world) = Some (hit_tasks, hit_world) \<and>
   count_list (calls hit_world) (lit ''a'') \<le> count_list (calls served_world) (lit ''a'') \<and>
   pending (lit ''a'') (served_tasks, served_world) = 0 \<and>
   read_texts sheet_aa = Inr [lit ''a'', lit ''a''] \<and>
   script race_client sheet_aa 5 [0, 0, 0, 0, 0, 0, 0, 1, 1, 1, 1, 1] blank_world
     = Some (None, serial_world) \<and>
   count_list (calls serial_world) (lit ''a'') = 1 \<and>
   count_list (calls serial_world) (lit ''a'') \<le> count_list [lit ''a'', lit ''a''] (lit ''a'')"
  using requests_bounded_by_occurrences[where client = race_client and m = 5 and sched = "[1, 1]"
      and ts = served_tasks and w = served_world and ts' = hit_tasks and w' = hit_world
      and T = "lit ''a''"]
    requests_bounded_by_occurrences[where client = race_client and m = 5
      and sched = "[0, 0, 0, 0, 0, 0, 0, 1, 1, 1, 1, 1]" and input = sheet_aa
      and texts = "[lit ''a'', lit ''a'']" and ?w0.0 = blank_world and r = None
      and ?w1.0 = serial_world and T = "lit ''a''"]
  by (simp add: sheet_aa_def serial_world_def served_tasks_def served_world_def hit_tasks_def
      hit_world_def pending_def weight_def run_defs exec_defs race_client_def blank_world_def
      lit_def)

section \<open>The pool and the output file\<close>

lemma pool_ok_init: "pool_ok texts (init_pool texts w)"
  by (simp add: pool_ok_def init_pool_def task_ok_def comp_def)

lemma pool_ok_step:
  assumes "pool_step client m i (ts, w) = Some (ts', w')" "pool_ok texts (ts, w)"
  shows "pool_ok texts (ts', w')"
  using assms(1)
proof (cases rule: pool_step_elim)
  case (1 p')
  from assms(2) have len: "length ts = length texts"
    by (auto simp: pool_ok_def dest: arg_cong[where f = length])
  from assms(2) 1(1) have "task_ok (length texts) i (ts ! i)" by (simp add: pool_ok_def)
  from task_ok_step[OF this] 1(4) 1(2) len
  have "task_ok (length texts) i
          ((ts ! i)\<lparr>pc := p', hist := hist (ts ! i) @ drop (length (events w)) (events w')\<rparr>)"
    by simp
  with 1(1,5) assms(2) show ?thesis
    by (auto simp: pool_ok_def nth_list_update map_update list_update_same_conv)
qed

lemma pool_ok_run:
  assumes "run_schedule client m sched (init_pool texts w0) = Some s"
  shows "pool_ok texts s"
proof (rule run_schedule_invariant[OF assms, where I = "pool_ok texts"])
  show "pool_ok texts (init_pool texts w0)" by (rule pool_ok_init)
next
  fix i a b
  assume "pool_ok texts a" "pool_step client m i a = Some b"
  then show "pool_ok texts b"
    using pool_ok_step[of client m i "fst a" "snd a" "fst b" "snd b" texts] by simp
qed

lemma appended_step:
  assumes "pool_step client m i (ts, w) = Some (ts', w')" "pool_ok texts (ts, w)"
    "appended out0 (ts, w)"
  shows "appended out0 (ts', w')"
  using assms(1)
proof (cases rule: pool_step_elim)
  case (1 p')
  from assms(2) 1(1) have ok: "task_ok (length texts) i (ts ! i)" by (simp add: pool_ok_def)
  from 1(4,2) show ?thesis
  proof (cases rule: task_step_elim)
    case (wr e)
    with ok have "e \<noteq> []" by (simp add: task_ok_def Let_def)
    with assms(3) wr show ?thesis
      by (auto simp: appended_def world_fields data_row_def)
  qed (use assms(3) in \<open>auto simp: appended_def world_fields\<close>)
qed

lemma appended_run:
  assumes "run_schedule client m sched (init_pool texts w0) = Some s"
  shows "appended (output_csv w0) s"
proof -
  let ?I = "\<lambda>s. pool_ok texts s \<and> appended (output_csv w0) s"
  have "?I s"
  proof (rule run_schedule_invariant[OF assms, where I = ?I])
    show "?I (init_pool texts w0)"
      by (simp add: pool_ok_init) (simp add: appended_def init_pool_def)
  next
    fix i a b
    assume "?I a" "pool_step client m i a = Some b"
    then show "?I b"
      using pool_ok_step[of client m i "fst a" "snd a" "fst b" "snd b" texts]
        appended_step[of client m i "fst a" "snd a" "fst b" "snd b" texts "output_csv w0"]
      by simp
  qed
  then show ?thesis by simp
qed


lemma data_rows_no_header: "list_all data_row rows \<Longrightarrow> Header \<notin> set rows"
  by (auto simp: list_all_iff data_row_def)

lemma output_loaded: "output_csv (load_cache (new_process w)) = output_csv w"
  by (simp add: load_cache_def new_process_def split: option.splits)

lemma script_output:
  assumes "script client input m sched w = Some (r, w')"
  shows "\<exists>rows. Header \<notin> set rows \<and>
           (output_csv w' = output_csv w \<or>
            output_csv w \<noteq> [] \<and> output_csv w' = output_csv w @ rows \<or>
            output_csv w = [] \<and> output_csv w' = Header # rows)"
  using assms
proof (cases rule: script_cases)
  case (read_error e)
  then show ?thesis by (auto simp: output_loaded intro: exI[of _ "[]"])
next
  case (pool_error texts)
  then show ?thesis by (auto simp: open_output_def output_loaded intro: exI[of _ "[]"])
next
  case (complete texts ts w1)
  from appended_run[OF complete(4)] obtain rows where
    "output_csv w1 = output_csv (open_output (load_cache (new_process w))) @ rows"
    "list_all data_row rows"
    by (auto simp: appended_def)
  with complete(6) show ?thesis
    by (auto simp: open_output_def output_loaded world_fields dest: data_rows_no_header)
qed

text \<open>
  C7. Every run appends to the output file and writes the header only into an empty
  file. So over any number of runs the file keeps what it held; a file that was not
  empty gets no header; and a file that was empty, once a run has written to it,
  starts with the header and holds no second one.
\<close>

theorem header_invariant:
  assumes "runs rs w0 = Some w"
  shows "\<exists>rows. output_csv w = output_csv w0 @ rows \<and>
           (output_csv w0 \<noteq> [] \<longrightarrow> Header \<notin> set rows) \<and>
           (output_csv w0 = [] \<and> rows \<noteq> [] \<longrightarrow> rows ! 0 = Header \<and> count_list rows Header = 1)"
  using assms
proof (induction rs arbitrary: w0)
  case Nil
  then show ?case by simp
next
  case (Cons a rs)
  obtain client input m sched where a: "a = (client, input, m, sched)"
    by (cases a) auto
  with Cons.prems obtain r w1 where
    run: "script client input m sched w0 = Some (r, w1)" and rest: "runs rs w1 = Some w"
    by (auto split: option.splits)
  from script_output[OF run] obtain rows1 where r1: "Header \<notin> set rows1"
    "output_csv w1 = output_csv w0 \<or>
     output_csv w0 \<noteq> [] \<and> output_csv w1 = output_csv w0 @ rows1 \<or>
     output_csv w0 = [] \<and> output_csv w1 = Header # rows1"
    by blast
  from Cons.IH[OF rest] obtain rows2 where r2: "output_csv w = output_csv w1 @ rows2"
    "output_csv w1 \<noteq> [] \<longrightarrow> Header \<notin> set rows2"
    "output_csv w1 = [] \<and> rows2 \<noteq> [] \<longrightarrow> rows2 ! 0 = Header \<and> count_list rows2 Header = 1"
    by blast
  from r1(2) consider (same) "output_csv w1 = output_csv w0"
    | (app) "output_csv w0 \<noteq> []" "output_csv w1 = output_csv w0 @ rows1"
    | (new) "output_csv w0 = []" "output_csv w1 = Header # rows1"
    by blast
  then show ?case
  proof cases
    case same
    with r2 show ?thesis by auto
  next
    case app
    with r1(1) r2 show ?thesis
      by (intro exI[of _ "rows1 @ rows2"]) auto
  next
    case new
    with r1(1) r2 show ?thesis
      by (intro exI[of _ "Header # rows1 @ rows2"]) (auto simp: count_list_0_iff)
  qed
qed

theorem header_invariant_witness:
  "runs [(race_client, sheet_a, 5, [0, 0, 0, 0, 0, 0, 0]), (race_client, sheet_a, 5, [0, 0, 0, 0, 0])]
     blank_world
   = Some \<lparr>cache = [lit ''a'' \<mapsto> [1]], cache_file = Some [lit ''a'' \<mapsto> [1]],
       output_csv = [Header, Row (lit ''a'') [1], Row (lit ''a'') [1]],
       events = [Progress 1 1 (lit ''a''), RowWrite (lit ''a'') [1], CachePersist, Completed]\<rparr> \<and>
   output_csv blank_world = [] \<and>
   [Header, Row (lit ''a'') [1], Row (lit ''a'') [1]] ! 0 = Header \<and>
   count_list [Header, Row (lit ''a'') [1], Row (lit ''a'') [1]] Header = 1"
  using header_invariant[of
      "[(race_client, sheet_a, 5, [0, 0, 0, 0, 0, 0, 0]), (race_client, sheet_a, 5, [0, 0, 0, 0, 0])]"
      blank_world
      "\<lparr>cache = [lit ''a'' \<mapsto> [1]], cache_file = Some [lit ''a'' \<mapsto> [1]],
       output_csv = [Header, Row (lit ''a'') [1], Row (lit ''a'') [1]],
       events = [Progress 1 1 (lit ''a''), RowWrite (lit ''a'') [1], CachePersist, Completed]\<rparr>"]
  by (simp add: sheet_a_def read_texts_def read_excel_def iloc_first_def texts_of_def
      first_cell_def strip_def isspace_def script_def process_excel_parallel_def all_done_def
      open_output_def load_cache_def new_process_def exec_defs race_client_def blank_world_def
      lit_def)

section \<open>Failures and empty vectors\<close>

lemma failed_hist:
  assumes "task_ok n j k" "Failed T err \<in> set (hist k)"
  shows "ttext k = T \<and> hist k = [Progress (j + 1) n T, RemoteCall T, Failed T err] \<and>
         (pc k = Returned None \<or> pc k = Done)"
  using assms
  by (cases "pc k") (auto simp: task_ok_def Let_def split: option.splits)

lemma process_text_failure:
  assumes "cache w T = None" "client (calls w) T = Inl err"
  shows "process_text client T idx tot w
         = emit [Progress (idx + 1) tot T, RemoteCall T, Failed T err] w"
  using assms
  by (simp add: process_text_def get_embedding_def remote_call_def world_fields)

lemma pool_step_call_fail:
  assumes "pool_step client m i (ts, w) = Some (ts', w')" "pc (ts ! i) = AtCall"
    "client (calls w) (ttext (ts ! i)) = Inl err"
  shows "w' = emit [RemoteCall (ttext (ts ! i)), Failed (ttext (ts ! i)) err] w"
    "ts' = ts[i := (ts ! i)\<lparr>pc := Returned None,
      hist := hist (ts ! i) @ [RemoteCall (ttext (ts ! i)), Failed (ttext (ts ! i)) err]\<rparr>]"
  using assms(1)
  by (cases rule: pool_step_elim; use assms(2,3) in \<open>auto simp: remote_call_def world_fields\<close>)+

lemma pool_step_skip:
  assumes "pool_step client m i (ts, w) = Some (ts', w')" "pc (ts ! i) = Returned None"
  shows "w' = w" "ts' = ts[i := (ts ! i)\<lparr>pc := Done\<rparr>]"
  using assms(1)
  by (cases rule: pool_step_elim; use assms(2) in auto)+

text \<open>
  C4. When the remote request of a task raises, the step that makes the request
  leaves the cache, the cache file and the output file as they are and reports the
  failure with the text and the error; the next step of the task ends it without
  touching the state; no other task of the pool is changed. In every state that a
  pool reaches, a task whose request has failed has had no effect but its progress
  line, the request and the report. Run without interruption, the task changes
  nothing but the list of effects, and the tasks after it are processed as usual.
  Whatever the client raises, a run with a pool of at least one thread has a schedule
  that completes without an exception.
\<close>

theorem failed_call_is_skipped:
  "(pool_step client m i (ts, w) = Some (ts', w') \<and> pc (ts ! i) = AtCall \<and>
    client (calls w) (ttext (ts ! i)) = Inl err \<longrightarrow>
      cache w' = cache w \<and> cache_file w' = cache_file w \<and> output_csv w' = output_csv w \<and>
      events w' = events w @ [RemoteCall (ttext (ts ! i)), Failed (ttext (ts ! i)) err] \<and>
      ts' = ts[i := (ts ! i)\<lparr>pc := Returned None,
                 hist := hist (ts ! i) @ [RemoteCall (ttext (ts ! i)), Failed (ttext (ts ! i)) err]\<rparr>]) \<and>
   (pool_step client m i (ts, w) = Some (ts', w') \<and> pc (ts ! i) = Returned None \<longrightarrow>
      w' = w \<and> ts' = ts[i := (ts ! i)\<lparr>pc := Done\<rparr>]) \<and>
   (run_schedule client m sched (init_pool texts w0) = Some (us, v) \<and> j < length us \<and>
    Failed T err' \<in> set (hist (us ! j)) \<longrightarrow>
      ttext (us ! j) = T \<and>
      hist (us ! j) = [Progress (j + 1) (length texts) T, RemoteCall T, Failed T err'] \<and>
      (pc (us ! j) = Returned None \<or> pc (us ! j) = Done)) \<and>
   (cache w T = None \<and> client (calls w) T = Inl err \<longrightarrow>
      process_text client T idx tot w
        = emit [Progress (idx + 1) tot T, RemoteCall T, Failed T err] w \<and>
      run_tasks client tot idx (T # rest) w
        = run_tasks client tot (idx + 1) rest
            (emit [Progress (idx + 1) tot T, RemoteCall T, Failed T err] w)) \<and>
   (0 < mt \<and> read_texts input = Inr items \<longrightarrow>
      (\<exists>sched' w''. script client input mt sched' wa = Some (None, w'')))"
proof (intro conjI impI; (elim conjE)?)
  assume "0 < mt" "read_texts input = Inr items"
  from script_completes[OF this, of client wa]
  show "\<exists>sched' w''. script client input mt sched' wa = Some (None, w'')"
    by blast
next
  assume step: "pool_step client m i (ts, w) = Some (ts', w')" and at: "pc (ts ! i) = AtCall"
    and fails: "client (calls w) (ttext (ts ! i)) = Inl err"
  note r = pool_step_call_fail[OF step at fails]
  from r(1) show "cache w' = cache w" "cache_file w' = cache_file w"
    "output_csv w' = output_csv w"
    "events w' = events w @ [RemoteCall (ttext (ts ! i)), Failed (ttext (ts ! i)) err]"
    by (simp_all add: world_fields)
  from r(2) show "ts' = ts[i := (ts ! i)\<lparr>pc := Returned None,
      hist := hist (ts ! i) @ [RemoteCall (ttext (ts ! i)), Failed (ttext (ts ! i)) err]\<rparr>]" .
next
  assume step: "pool_step client m i (ts, w) = Some (ts', w')" and at: "pc (ts ! i) = Returned None"
  from pool_step_skip[OF step at] show "w' = w" "ts' = ts[i := (ts ! i)\<lparr>pc := Done\<rparr>]" .
next
  assume run: "run_schedule client m sched (init_pool texts w0) = Some (us, v)"
    and j: "j < length us" and f: "Failed T err' \<in> set (hist (us ! j))"
  from pool_ok_run[OF run] j have "task_ok (length texts) j (us ! j)"
    by (simp add: pool_ok_def)
  from failed_hist[OF this f]
  show "ttext (us ! j) = T"
    "hist (us ! j) = [Progress (j + 1) (length texts) T, RemoteCall T, Failed T err']"
    "pc (us ! j) = Returned None \<or> pc (us ! j) = Done"
    by simp_all
next
  assume "cache w T = None" "client (calls w) T = Inl err"
  then have "process_text client T idx tot w
          = emit [Progress (idx + 1) tot T, RemoteCall T, Failed T err] w"
    by (rule process_text_failure)
  then show "process_text client T idx tot w
          = emit [Progress (idx + 1) tot T, RemoteCall T, Failed T err] w"
    "run_tasks client tot idx (T # rest) w
        = run_tasks client tot (idx + 1) rest
            (emit [Progress (idx + 1) tot T, RemoteCall T, Failed T err] w)"
    by simp_all
qed

theorem failed_call_is_skipped_witness:
  "run_schedule failing_client 5 [0, 0, 0, 1] (init_pool [lit ''a'', lit ''b''] blank_world)
     = Some (failed_tasks, failed_world) \<and>
   0 < length failed_tasks \<and> Failed (lit ''a'') down \<in> set (hist (failed_tasks ! 0)) \<and>
   ttext (failed_tasks ! 0) = lit ''a'' \<and>
   hist (failed_tasks ! 0) = [Progress (0 + 1) (length [lit ''a'', lit ''b'']) (lit ''a''),
     RemoteCall (lit ''a''), Failed (lit ''a'') down] \<and>
   pc (failed_tasks ! 0) = Returned None \<and>
   pool_step failing_client 5 0 (failed_tasks, failed_world)
     = Some (failed_tasks[0 := (failed_tasks ! 0)\<lparr>pc := Done\<rparr>], failed_world) \<and>
   cache blank_world (lit ''a'') = None \<and> failing_client (calls blank_world) (lit ''a'') = Inl down \<and>
   process_text failing_client (lit ''a'') 0 2 blank_world
     = emit [Progress (0 + 1) 2 (lit ''a''), RemoteCall (lit ''a''), Failed (lit ''a'') down] blank_world"
  using failed_call_is_skipped[of failing_client 5 0 failed_tasks failed_world
      "failed_tasks[0 := (failed_tasks ! 0)\<lparr>pc := Done\<rparr>]" failed_world down
      "[0, 0, 0, 1]" "[lit ''a'', lit ''b'']" blank_world failed_tasks failed_world 0 "lit ''a''" down
      ]
  by (simp add: failed_tasks_def failed_world_def down_def failing_client_def blank_world_def
      exec_defs lit_def process_text_def get_embedding_def)

lemma empty_insert_hist:
  assumes "task_ok n j k" "CacheInsert T [] \<in> set (hist k)"
  shows "hist k = [Progress (j + 1) n T, RemoteCall T, CacheInsert T []] \<and>
         (pc k = Returned (Some []) \<or> pc k = Done)"
  using assms
  by (cases "pc k") (auto simp: task_ok_def Let_def split: option.splits)

lemma process_text_empty:
  assumes "cache w T = None" "client (calls w) T = Inr []"
  shows "process_text client T idx tot w
         = cache_insert T [] (emit [Progress (idx + 1) tot T, RemoteCall T] w)"
  using assms
  by (simp add: process_text_def get_embedding_def remote_call_def world_fields)

lemma pool_step_insert:
  assumes "pool_step client m i (ts, w) = Some (ts', w')" "pc (ts ! i) = AtInsert e"
  shows "w' = cache_insert (ttext (ts ! i)) e w"
    "ts' = ts[i := (ts ! i)\<lparr>pc := Returned (Some e),
      hist := hist (ts ! i) @ [CacheInsert (ttext (ts ! i)) e]\<rparr>]"
  using assms(1)
  by (cases rule: pool_step_elim; use assms(2) in \<open>auto simp: world_fields\<close>)+

lemma pool_step_falsy:
  assumes "pool_step client m i (ts, w) = Some (ts', w')" "pc (ts ! i) = Returned (Some [])"
  shows "w' = w" "ts' = ts[i := (ts ! i)\<lparr>pc := Done\<rparr>]"
  using assms(1)
  by (cases rule: pool_step_elim; use assms(2) in auto)+

lemma data_rows_nonempty: "list_all data_row rows \<Longrightarrow> Row t [] \<notin> set rows"
  by (auto simp: list_all_iff data_row_def)

text \<open>
  C10. When the remote request succeeds with the empty vector, the insert puts the
  entry into the cache and leaves the two files alone, and the test of the result then
  ends the task as it does after a failure: the state is unchanged, so no row is
  written and the cache is not persisted. In every state that a pool reaches, no row
  with an empty vector has been appended to the output file, and a task that has
  inserted the empty vector has had no later effect.
\<close>

theorem empty_vector_is_cached_not_written:
  "(pool_step client m i (ts, w) = Some (ts', w') \<and> pc (ts ! i) = AtInsert [] \<longrightarrow>
      cache w' = (cache w)(ttext (ts ! i) \<mapsto> []) \<and> cache_file w' = cache_file w \<and>
      output_csv w' = output_csv w \<and>
      ts' = ts[i := (ts ! i)\<lparr>pc := Returned (Some []),
                 hist := hist (ts ! i) @ [CacheInsert (ttext (ts ! i)) []]\<rparr>]) \<and>
   (pool_step client m i (ts, w) = Some (ts', w') \<and> pc (ts ! i) = Returned (Some []) \<longrightarrow>
      w' = w \<and> ts' = ts[i := (ts ! i)\<lparr>pc := Done\<rparr>]) \<and>
   (run_schedule client m sched (init_pool texts w0) = Some (us, v) \<longrightarrow>
      (\<exists>rows. output_csv v = output_csv w0 @ rows \<and> (\<forall>t. Row t [] \<notin> set rows)) \<and>
      (\<forall>j T. j < length us \<and> CacheInsert T [] \<in> set (hist (us ! j)) \<longrightarrow>
         hist (us ! j) = [Progress (j + 1) (length texts) T, RemoteCall T, CacheInsert T []] \<and>
         (pc (us ! j) = Returned (Some []) \<or> pc (us ! j) = Done))) \<and>
   (cache w T = None \<and> client (calls w) T = Inr [] \<longrightarrow>
      process_text client T idx tot w
        = cache_insert T [] (emit [Progress (idx + 1) tot T, RemoteCall T] w))"
proof (intro conjI impI allI; (elim conjE)?)
  assume step: "pool_step client m i (ts, w) = Some (ts', w')" and at: "pc (ts ! i) = AtInsert []"
  note r = pool_step_insert[OF step at]
  from r(1) show "cache w' = (cache w)(ttext (ts ! i) \<mapsto> [])" "cache_file w' = cache_file w"
    "output_csv w' = output_csv w"
    by (simp_all add: world_fields)
  from r(2) show "ts' = ts[i := (ts ! i)\<lparr>pc := Returned (Some []),
      hist := hist (ts ! i) @ [CacheInsert (ttext (ts ! i)) []]\<rparr>]" .
next
  assume step: "pool_step client m i (ts, w) = Some (ts', w')"
    and at: "pc (ts ! i) = Returned (Some [])"
  from pool_step_falsy[OF step at] show "w' = w" "ts' = ts[i := (ts ! i)\<lparr>pc := Done\<rparr>]" .
next
  assume run: "run_schedule client m sched (init_pool texts w0) = Some (us, v)"
  from appended_run[OF run] show "\<exists>rows. output_csv v = output_csv w0 @ rows \<and> (\<forall>t. Row t [] \<notin> set rows)"
    by (auto simp: appended_def dest: data_rows_nonempty)
next
  fix j T
  assume run: "run_schedule client m sched (init_pool texts w0) = Some (us, v)"
    and j: "j < length us" and c: "CacheInsert T [] \<in> set (hist (us ! j))"
  from pool_ok_run[OF run] j have "task_ok (length texts) j (us ! j)"
    by (simp add: pool_ok_def)
  from empty_insert_hist[OF this c]
  show "hist (us ! j) = [Progress (j + 1) (length texts) T, RemoteCall T, CacheInsert T []]"
    "pc (us ! j) = Returned (Some []) \<or> pc (us ! j) = Done"
    by simp_all
next
  assume "cache w T = None" "client (calls w) T = Inr []"
  then show "process_text client T idx tot w
        = cache_insert T [] (emit [Progress (idx + 1) tot T, RemoteCall T] w)"
    by (rule process_text_empty)
qed

theorem empty_vector_is_cached_not_written_witness:
  "run_schedule empty_client 5 [0, 0, 0, 0] (init_pool [lit ''a''] blank_world)
     = Some (empty_tasks, empty_world) \<and>
   output_csv empty_world = output_csv blank_world @ [] \<and>
   0 < length empty_tasks \<and> CacheInsert (lit ''a'') [] \<in> set (hist (empty_tasks ! 0)) \<and>
   hist (empty_tasks ! 0) = [Progress (0 + 1) (length [lit ''a'']) (lit ''a''),
     RemoteCall (lit ''a''), CacheInsert (lit ''a'') []] \<and>
   pc (empty_tasks ! 0) = Returned (Some []) \<and>
   pool_step empty_client 5 0 (empty_tasks, empty_world)
     = Some (empty_tasks[0 := (empty_tasks ! 0)\<lparr>pc := Done\<rparr>], empty_world) \<and>
   cache empty_world (lit ''a'') = Some [] \<and> cache_file empty_world = None"
  using empty_vector_is_cached_not_written[of empty_client 5 0 empty_tasks empty_world
      "empty_tasks[0 := (empty_tasks ! 0)\<lparr>pc := Done\<rparr>]" empty_world
      "[0, 0, 0, 0]" "[lit ''a'']" blank_world empty_tasks empty_world]
  by (simp add: empty_tasks_def empty_world_def empty_client_def blank_world_def
      exec_defs lit_def)

section \<open>The order of the effects of a task\<close>







section \<open>Cached texts\<close>

lemma cached_inv_step:
  assumes "pool_step client m i (ts, w) = Some (ts', w')" "cached_inv T v w0 (ts, w)"
  shows "cached_inv T v w0 (ts', w')"
  using assms(1)
proof (cases rule: pool_step_elim)
  case (1 p')
  from assms(2) have c: "cache w T = Some v"
    and n: "count_list (calls w) T = count_list (calls w0) T"
    and r: "\<And>e. RowWrite T e \<in> set (events w) \<Longrightarrow> RowWrite T e \<in> set (events w0) \<or> e = v"
    and p: "\<And>j. j < length ts \<Longrightarrow> ttext (ts ! j) = T \<Longrightarrow> cached_pc v (pc (ts ! j))"
    by (auto simp: cached_inv_def)
  have own: "ttext (ts ! i) = T \<Longrightarrow> cached_pc v (pc (ts ! i))"
    using p[OF 1(1)] .
  have w: "cache w' T = Some v \<and> count_list (calls w') T = count_list (calls w0) T \<and>
      (\<forall>e. RowWrite T e \<in> set (events w') \<longrightarrow> RowWrite T e \<in> set (events w0) \<or> e = v) \<and>
      (ttext (ts ! i) = T \<longrightarrow> cached_pc v p')"
    using 1(4,2)
    by (cases rule: task_step_elim)
      (use c n r own in \<open>auto simp: cached_pc_def world_fields truthy_def\<close>)
  have "\<And>j. j < length ts' \<Longrightarrow> ttext (ts' ! j) = T \<Longrightarrow> cached_pc v (pc (ts' ! j))"
  proof -
    fix j assume j: "j < length ts'" "ttext (ts' ! j) = T"
    show "cached_pc v (pc (ts' ! j))"
    proof (cases "j = i")
      case True
      with j 1(1,5) w show ?thesis by simp
    next
      case False
      with j 1(5) p[of j] show ?thesis by simp
    qed
  qed
  with w show ?thesis by (simp add: cached_inv_def)
qed

lemma cached_inv_run:
  assumes "run_schedule client m sched (init_pool texts w0) = Some s" "cache w0 T = Some v"
  shows "cached_inv T v w0 s"
proof (rule run_schedule_invariant[OF assms(1), where I = "cached_inv T v w0"])
  show "cached_inv T v w0 (init_pool texts w0)"
    using assms(2) by (simp add: cached_inv_def init_pool_def cached_pc_def)
next
  fix i a b
  assume "cached_inv T v w0 a" "pool_step client m i a = Some b"
  then show "cached_inv T v w0 b"
    using cached_inv_step[of client m i "fst a" "snd a" "fst b" "snd b" T v w0] by simp
qed


lemma single_own_step:
  assumes "single_ok T p u" "task_step client T i n p u = (p', u')" "p \<noteq> Done"
  shows "single_ok T p' u'"
  using assms(2,3)
  by (cases rule: task_step_elim) (use assms(1) in \<open>auto simp: single_ok_def world_fields\<close>)

lemma single_other_step:
  assumes "single_ok T q u" "task_step client t i n p u = (p', u')" "p \<noteq> Done" "t \<noteq> T"
  shows "single_ok T q u'"
  using assms(2,3)
  by (cases rule: task_step_elim) (use assms(1,4) in \<open>auto simp: single_ok_def world_fields\<close>)

lemma row_write_origin:
  assumes "task_step client t i n p u = (p', u')" "p \<noteq> Done"
    "RowWrite T e \<in> set (events u')"
  shows "RowWrite T e \<in> set (events u) \<or> t = T"
  using assms(1,2)
  by (cases rule: task_step_elim) (use assms(3) in \<open>auto simp: world_fields\<close>)

lemma single_inv_step:
  assumes "pool_step client m i (ts, w) = Some (ts', w')" "single_inv T (ts, w)"
  shows "single_inv T (ts', w')"
  using assms(1)
proof (cases rule: pool_step_elim)
  case (1 p')
  from assms(2) have uniq: "\<And>j j'. j < length ts \<Longrightarrow> j' < length ts \<Longrightarrow>
      ttext (ts ! j) = T \<Longrightarrow> ttext (ts ! j') = T \<Longrightarrow> j = j'"
    and orig: "\<And>e. RowWrite T e \<in> set (events w) \<Longrightarrow> \<exists>j<length ts. ttext (ts ! j) = T"
    and ok: "\<And>j. j < length ts \<Longrightarrow> ttext (ts ! j) = T \<Longrightarrow> single_ok T (pc (ts ! j)) w"
    by (auto simp: single_inv_def)
  have len: "length ts' = length ts"
    using 1(5) by simp
  have same: "ttext (ts' ! j) = ttext (ts ! j)" if "j < length ts" for j
    using 1(5) that by (cases "j = i") simp_all
  have a: "\<forall>j<length ts'. \<forall>j'<length ts'. ttext (ts' ! j) = T \<and> ttext (ts' ! j') = T \<longrightarrow> j = j'"
    using uniq len same by auto
  have b: "\<forall>e. RowWrite T e \<in> set (events w') \<longrightarrow> (\<exists>j<length ts'. ttext (ts' ! j) = T)"
  proof (intro allI impI)
    fix e assume "RowWrite T e \<in> set (events w')"
    from row_write_origin[OF 1(4,2) this] show "\<exists>j<length ts'. ttext (ts' ! j) = T"
      using orig[of e] 1(1) len same by auto
  qed
  have c: "\<forall>j<length ts'. ttext (ts' ! j) = T \<longrightarrow> single_ok T (pc (ts' ! j)) w'"
  proof (intro allI impI)
    fix j assume j: "j < length ts'" "ttext (ts' ! j) = T"
    with len same have jT: "j < length ts" "ttext (ts ! j) = T" by auto
    show "single_ok T (pc (ts' ! j)) w'"
    proof (cases "ttext (ts ! i) = T")
      case True
      with uniq[OF jT(1) 1(1) jT(2)] have "j = i" by simp
      with single_own_step[OF ok[OF 1(1) True]] 1(4,2,1,5) True show ?thesis by simp
    next
      case False
      with jT have "j \<noteq> i" by auto
      with single_other_step[OF ok[OF jT] 1(4,2) False] 1(5) jT show ?thesis by simp
    qed
  qed
  from a b c show ?thesis by (simp add: single_inv_def)
qed

lemma count_le_one_unique:
  "count_list xs T \<le> 1 \<Longrightarrow> j < length xs \<Longrightarrow> j' < length xs \<Longrightarrow> xs ! j = T \<Longrightarrow> xs ! j' = T
   \<Longrightarrow> j = j'"
proof (induction xs arbitrary: j j')
  case Nil
  then show ?case by simp
next
  case (Cons x xs)
  have in_count: "\<And>k. k < length xs \<Longrightarrow> xs ! k = T \<Longrightarrow> 0 < count_list xs T"
    by (metis count_list_0_iff nth_mem not_gr_zero)
  show ?case
  proof (cases j; cases j')
    fix k k' assume "j = Suc k" "j' = Suc k'"
    with Cons show ?thesis by (auto split: if_splits)
  next
    fix k' assume "j = 0" "j' = Suc k'"
    with Cons.prems in_count[of k'] show ?thesis by (auto split: if_splits)
  next
    fix k assume "j = Suc k" "j' = 0"
    with Cons.prems in_count[of k] show ?thesis by (auto split: if_splits)
  qed simp
qed

lemma single_inv_run:
  assumes "run_schedule client m sched (init_pool texts w0) = Some s"
    "count_list texts T \<le> 1" "events w0 = []"
  shows "single_inv T s"
proof (rule run_schedule_invariant[OF assms(1), where I = "single_inv T"])
  have "\<And>j j'. j < length texts \<Longrightarrow> j' < length texts \<Longrightarrow> texts ! j = T \<Longrightarrow> texts ! j' = T
      \<Longrightarrow> j = j'"
    using count_le_one_unique[OF assms(2)] .
  then show "single_inv T (init_pool texts w0)"
    using assms(3) by (auto simp: single_inv_def init_pool_def single_ok_def)
next
  fix i a b
  assume "single_inv T a" "pool_step client m i a = Some b"
  then show "single_inv T b"
    using single_inv_step[of client m i "fst a" "snd a" "fst b" "snd b" T] by simp
qed


lemma events_fresh: "events (open_output (load_cache (new_process w))) = []"
  by (simp add: open_output_def load_cache_def new_process_def split: option.splits)

lemma events_loaded: "events (load_cache (new_process w)) = []"
  by (simp add: load_cache_def new_process_def split: option.splits)

lemma cache_fresh:
  "cache_file w = Some f \<Longrightarrow> cache (open_output (load_cache (new_process w))) = f"
  by (simp add: open_output_def load_cache_def new_process_def)

lemma calls_Completed: "calls (emit [Completed] w) = calls w"
  by (simp add: world_fields)

lemma persisted_run:
  assumes "cache_file wb = Some f" "f T = Some v" "script client input m sched wb = Some (r, wc)"
  shows "T \<notin> set (calls wc) \<and> (\<forall>e. RowWrite T e \<in> set (events wc) \<longrightarrow> e = v)"
  using assms(3)
proof (cases rule: script_cases)
  case (read_error e)
  then show ?thesis by (simp add: calls_def events_loaded)
next
  case (pool_error texts)
  then show ?thesis by (simp add: calls_def events_fresh)
next
  case (complete texts ts w1)
  let ?w0 = "open_output (load_cache (new_process wb))"
  from assms(1,2) have "cache ?w0 T = Some v" by (simp add: cache_fresh)
  from cached_inv_run[OF complete(4) this]
  have n: "count_list (calls w1) T = 0"
    and r: "\<And>e. RowWrite T e \<in> set (events w1) \<Longrightarrow> e = v"
    by (auto simp: cached_inv_def calls_fresh events_fresh)
  from n have "T \<notin> set (calls w1)" by (simp add: count_list_0_iff)
  with r complete(6) show ?thesis by (auto simp: world_fields)
qed

lemma first_run_persists:
  assumes "script client input m sched wa = Some (r, wb)" "read_texts input = Inr texts"
    "count_list texts T \<le> 1" "RowWrite T v \<in> set (events wb)"
  shows "\<exists>f. cache_file wb = Some f \<and> f T = Some v"
  using assms(1)
proof (cases rule: script_cases)
  case (read_error e)
  with assms(4) show ?thesis by (simp add: events_loaded)
next
  case (pool_error texts')
  with assms(4) show ?thesis by (simp add: events_fresh)
next
  case (complete texts' ts w1)
  with assms(2) have run: "run_schedule client m sched
      (init_pool texts (open_output (load_cache (new_process wa)))) = Some (ts, w1)"
    by simp
  from single_inv_run[OF run assms(3) events_fresh] have inv: "single_inv T (ts, w1)" .
  from assms(4) complete(6) have rw: "RowWrite T v \<in> set (events w1)"
    by (simp add: world_fields)
  with inv obtain j where j: "j < length ts" "ttext (ts ! j) = T"
    by (auto simp: single_inv_def)
  with inv have ok: "single_ok T (pc (ts ! j)) w1" by (simp add: single_inv_def)
  from complete(5) j(1) have "pc (ts ! j) = Done" by (simp add: all_done_def list_all_length)
  with ok rw have "\<exists>f. cache_file w1 = Some f \<and> f T = Some v"
    by (auto simp: single_ok_def)
  with complete(6) show ?thesis by (simp add: world_fields)
qed

text \<open>
  C6. A request for a text that is in the cache returns the stored vector and leaves
  the state, and so the list of remote requests, as it is. In a pool that starts with
  the text in the cache, under every schedule, the entry stays, the text is never
  requested, and every row written for it carries the stored vector. Across runs: when
  the cache file holds a vector for the text, the next run does not request the text
  and writes that vector for it; and when a run in which the text occurs once has
  written a row for it, the next run does not request the text and writes the same
  vector.
\<close>

theorem cached_text_is_not_requested:
  "(cache w T = Some v \<longrightarrow> get_embedding client T w = (Some v, w)) \<and>
   (cache w0 T = Some v \<and> run_schedule client m sched (init_pool texts w0) = Some (us, u) \<longrightarrow>
      cache u T = Some v \<and> count_list (calls u) T = count_list (calls w0) T \<and>
      (\<forall>e. RowWrite T e \<in> set (events u) \<longrightarrow> RowWrite T e \<in> set (events w0) \<or> e = v)) \<and>
   (cache_file wb = Some f \<and> f T = Some v \<and> script c2 in2 m2 s2 wb = Some (r2, wc) \<longrightarrow>
      T \<notin> set (calls wc) \<and> (\<forall>e. RowWrite T e \<in> set (events wc) \<longrightarrow> e = v)) \<and>
   (script c1 in1 m1 s1 wa = Some (r1, wb) \<and> read_texts in1 = Inr texts1 \<and>
    count_list texts1 T \<le> 1 \<and> RowWrite T v \<in> set (events wb) \<and>
    script c2 in2 m2 s2 wb = Some (r2, wc) \<longrightarrow>
      T \<notin> set (calls wc) \<and> (\<forall>e. RowWrite T e \<in> set (events wc) \<longrightarrow> e = v))"
proof (intro conjI)
  show "cache w T = Some v \<longrightarrow> get_embedding client T w = (Some v, w)"
    by (simp add: get_embedding_def)
next
  show "cache w0 T = Some v \<and> run_schedule client m sched (init_pool texts w0) = Some (us, u) \<longrightarrow>
      cache u T = Some v \<and> count_list (calls u) T = count_list (calls w0) T \<and>
      (\<forall>e. RowWrite T e \<in> set (events u) \<longrightarrow> RowWrite T e \<in> set (events w0) \<or> e = v)"
    using cached_inv_run[of client m sched texts w0 "(us, u)" T v]
    by (simp add: cached_inv_def)
next
  show "cache_file wb = Some f \<and> f T = Some v \<and> script c2 in2 m2 s2 wb = Some (r2, wc) \<longrightarrow>
      T \<notin> set (calls wc) \<and> (\<forall>e. RowWrite T e \<in> set (events wc) \<longrightarrow> e = v)"
    using persisted_run[of wb f T v c2 in2 m2 s2 r2 wc] by blast
next
  show "script c1 in1 m1 s1 wa = Some (r1, wb) \<and> read_texts in1 = Inr texts1 \<and>
    count_list texts1 T \<le> 1 \<and> RowWrite T v \<in> set (events wb) \<and>
    script c2 in2 m2 s2 wb = Some (r2, wc) \<longrightarrow>
      T \<notin> set (calls wc) \<and> (\<forall>e. RowWrite T e \<in> set (events wc) \<longrightarrow> e = v)"
  proof (intro impI; elim conjE)
    assume a: "script c1 in1 m1 s1 wa = Some (r1, wb)" "read_texts in1 = Inr texts1"
      "count_list texts1 T \<le> 1" "RowWrite T v \<in> set (events wb)"
      and b: "script c2 in2 m2 s2 wb = Some (r2, wc)"
    from first_run_persists[OF a] obtain g where "cache_file wb = Some g" "g T = Some v"
      by blast
    from persisted_run[OF this b]
    show "T \<notin> set (calls wc) \<and> (\<forall>e. RowWrite T e \<in> set (events wc) \<longrightarrow> e = v)" .
  qed
qed

theorem cached_text_is_not_requested_witness:
  "script race_client sheet_a 5 [0, 0, 0, 0, 0, 0, 0] blank_world = Some (None, first_run_world) \<and>
   read_texts sheet_a = Inr [lit ''a''] \<and> count_list [lit ''a''] (lit ''a'') \<le> 1 \<and>
   RowWrite (lit ''a'') [1] \<in> set (events first_run_world) \<and>
   script race_client sheet_a 5 [0, 0, 0, 0, 0] first_run_world = Some (None, second_run_world) \<and>
   lit ''a'' \<notin> set (calls second_run_world) \<and>
   RowWrite (lit ''a'') [1] \<in> set (events second_run_world) \<and>
   cache first_run_world (lit ''a'') = Some [1] \<and>
   get_embedding race_client (lit ''a'') first_run_world = (Some [1], first_run_world)"
  using cached_text_is_not_requested[where w = first_run_world and T = "lit ''a''" and v = "[1]"
      and client = race_client and wb = first_run_world and ?c2.0 = race_client
      and ?in2.0 = sheet_a and ?m2.0 = 5 and ?s2.0 = "[0, 0, 0, 0, 0]" and ?r2.0 = None
      and wc = second_run_world and ?c1.0 = race_client and ?in1.0 = sheet_a and ?m1.0 = 5
      and ?s1.0 = "[0, 0, 0, 0, 0, 0, 0]" and wa = blank_world and ?r1.0 = None
      and ?texts1.0 = "[lit ''a'']"]
  by (simp add: first_run_world_def second_run_world_def sheet_a_def read_texts_def
      read_excel_def iloc_first_def texts_of_def first_cell_def strip_def isspace_def script_def
      process_excel_parallel_def all_done_def open_output_def load_cache_def new_process_def
      exec_defs race_client_def blank_world_def lit_def)

section \<open>The scenario alpha, beta, alpha\<close>

lemma scenario_texts: "read_texts scenario_sheet = Inr [lit ''alpha'', lit ''beta'', lit ''alpha'']"
  by (simp add: scenario_sheet_def read_texts_def read_excel_def iloc_first_def texts_of_def
      first_cell_def strip_def isspace_def lit_def)

lemma scenario_run:
  "main scenario_client scenario_sheet [0, 0, 0, 0, 0, 0, 0, 1, 1, 1, 1, 1, 1, 1, 2, 2, 2, 2, 2]
     \<lparr>cache = c0, cache_file = None, output_csv = out0, events = ev0\<rparr>
   = Some (None, scenario_result out0)"
  by (simp add: main_def script_def process_excel_parallel_def scenario_texts all_done_def
      open_output_def load_cache_def new_process_def exec_defs scenario_client_def
      scenario_result_def scenario_events_def)
    (simp add: lit_def)

lemma scenario_seq:
  "run_tasks scenario_client 3 0 [lit ''alpha'', lit ''beta'', lit ''alpha'']
     (open_output (load_cache (new_process
        \<lparr>cache = c0, cache_file = None, output_csv = out0, events = ev0\<rparr>)))
   = (scenario_result out0)\<lparr>events := scenario_events\<rparr>"
  by (simp add: process_text_def get_embedding_def open_output_def load_cache_def
      new_process_def exec_defs scenario_client_def scenario_result_def scenario_events_def)
    (simp add: lit_def)

lemma scenario_calls: "calls (scenario_result out0) = [lit ''alpha'', lit ''beta'']"
  by (simp add: scenario_result_def scenario_events_def calls_def)

lemma scenario_dom: "dom (cache (scenario_result out0)) = {lit ''alpha'', lit ''beta''}"
  by (auto simp: scenario_result_def)

lemma scenario_card: "card {lit ''alpha'', lit ''beta''} = 2"
  by (simp add: lit_def)

text \<open>
  C5. With no cache file at the start, the run of the script on the column alpha,
  beta, alpha in which the three tasks follow one another (no two tasks are between
  lookup and insert at once) ends without an exception; it issues exactly the two
  requests for "alpha" and "beta"; it appends exactly three data rows, one per
  occurrence, after the header that an empty file gets; and the cache and the cache
  file hold exactly the two entries. The tasks taken one after the other as whole
  calls of \<open>process_text\<close> leave the same state.
\<close>

theorem scenario_alpha_beta_alpha:
  "read_texts scenario_sheet = Inr [lit ''alpha'', lit ''beta'', lit ''alpha''] \<and>
   main scenario_client scenario_sheet [0, 0, 0, 0, 0, 0, 0, 1, 1, 1, 1, 1, 1, 1, 2, 2, 2, 2, 2]
     \<lparr>cache = c0, cache_file = None, output_csv = out0, events = ev0\<rparr>
     = Some (None, scenario_result out0) \<and>
   calls (scenario_result out0) = [lit ''alpha'', lit ''beta''] \<and>
   length (calls (scenario_result out0)) = 2 \<and>
   output_csv (scenario_result out0)
     = (if out0 = [] then [Header] else out0) @
       [Row (lit ''alpha'') [1], Row (lit ''beta'') [2], Row (lit ''alpha'') [1]] \<and>
   dom (cache (scenario_result out0)) = {lit ''alpha'', lit ''beta''} \<and>
   card (dom (cache (scenario_result out0))) = 2 \<and>
   cache_file (scenario_result out0) = Some (cache (scenario_result out0)) \<and>
   run_tasks scenario_client 3 0 [lit ''alpha'', lit ''beta'', lit ''alpha'']
     (open_output (load_cache (new_process
        \<lparr>cache = c0, cache_file = None, output_csv = out0, events = ev0\<rparr>)))
     = (scenario_result out0)\<lparr>events := scenario_events\<rparr>"
proof -
  have "output_csv (scenario_result out0)
     = (if out0 = [] then [Header] else out0) @
       [Row (lit ''alpha'') [1], Row (lit ''beta'') [2], Row (lit ''alpha'') [1]]"
    "cache_file (scenario_result out0) = Some (cache (scenario_result out0))"
    by (simp_all add: scenario_result_def)
  then show ?thesis
    using scenario_texts scenario_run[of c0 out0 ev0] scenario_seq[of c0 out0 ev0]
      scenario_calls[of out0] scenario_dom[of out0] scenario_card
    by simp
qed

theorem scenario_alpha_beta_alpha_witness:
  "main scenario_client scenario_sheet [0, 0, 0, 0, 0, 0, 0, 1, 1, 1, 1, 1, 1, 1, 2, 2, 2, 2, 2]
     blank_world = Some (None, scenario_result []) \<and>
   calls (scenario_result []) = [lit ''alpha'', lit ''beta''] \<and>
   output_csv (scenario_result [])
     = [Header, Row (lit ''alpha'') [1], Row (lit ''beta'') [2], Row (lit ''alpha'') [1]] \<and>
   card (dom (cache (scenario_result []))) = 2"
  using scenario_alpha_beta_alpha[of Map.empty "[]" "[]"]
  by (simp add: blank_world_def scenario_card)

end
